theory Spec2Isabelle
  imports Complex_Main "HOL-Library.Product_Lexorder"
begin

section \<open>Data model of the parsers (mlreco/iotools/parsers.py)\<close>

text \<open>
  The parsers read two vectors of one event: the particle records
  (\<open>data[1].as_vector()\<close>) and the voxel clusters (\<open>data[0].as_vector()\<close>).
  Only the fields the parsers read are kept. Group ids and particle ids are unsigned
  in the simulation output, so they are naturals; finite floating-point numbers
  (times, voxel values) are compared exactly, so they are reals.
\<close>

datatype error = IndexError | ValueError | AssertionError | InputMismatch

record particle =
  particle_id :: nat
  group_id :: nat
  shape :: int
  creation_process :: string
  parent_pdg_code :: int
  first_step_t :: real

type_synonym voxel = "int \<times> int \<times> int"

type_synonym cluster = "(voxel \<times> real) list"

text \<open>One row of the feature array of \<open>parse_cluster3d_full\<close>:
  voxel value, cluster id, group id, semantic type.\<close>

record feature =
  fvalue :: real
  cluster_id :: nat
  fgroup_id :: nat
  sem_type :: real

section \<open>numpy primitives used by the parsers\<close>

text \<open>\<open>sub in s\<close> on Python strings.\<close>

fun starts_with :: "string \<Rightarrow> string \<Rightarrow> bool" where
  "starts_with [] s = True"
| "starts_with (c # cs) [] = False"
| "starts_with (c # cs) (d # ds) = (c = d \<and> starts_with cs ds)"

fun str_contains :: "string \<Rightarrow> string \<Rightarrow> bool" where
  "str_contains sub [] = (sub = [])"
| "str_contains sub (d # ds) = (starts_with sub (d # ds) \<or> str_contains sub ds)"

text \<open>\<open>np.unique\<close> of a one-dimensional array: the sorted distinct values.\<close>

definition np_unique :: "nat list \<Rightarrow> nat list" where
  "np_unique xs = sort (remdups xs)"

text \<open>\<open>np.where(group_ids == gid)[0]\<close>: the positions holding \<open>gid\<close>, ascending.\<close>

definition np_where_eq :: "nat list \<Rightarrow> nat \<Rightarrow> nat list" where
  "np_where_eq gs g = filter (\<lambda>i. gs ! i = g) [0..<length gs]"

text \<open>\<open>group_ids[idxs] = v\<close>: indexed assignment, one position after the other.\<close>

definition assign_at :: "nat list \<Rightarrow> nat list \<Rightarrow> nat \<Rightarrow> nat list" where
  "assign_at gs idxs v = fold (\<lambda>i acc. acc[i := v]) idxs gs"

text \<open>\<open>np.argmin\<close>: the first position of the minimum; an empty array raises.\<close>

fun argmin_from :: "real \<Rightarrow> nat \<Rightarrow> nat \<Rightarrow> real list \<Rightarrow> nat" where
  "argmin_from b bi i [] = bi"
| "argmin_from b bi i (x # xs) =
     (if x < b then argmin_from x i (Suc i) xs else argmin_from b bi (Suc i) xs)"

definition np_argmin :: "real list \<Rightarrow> error + nat" where
  "np_argmin xs = (case xs of [] \<Rightarrow> Inl ValueError | x # r \<Rightarrow> Inr (argmin_from x 0 1 r))"

text \<open>\<open>np.argmax\<close>: the first position of the maximum; an empty array raises.\<close>

fun argmax_from :: "real \<Rightarrow> nat \<Rightarrow> nat \<Rightarrow> real list \<Rightarrow> nat" where
  "argmax_from b bi i [] = bi"
| "argmax_from b bi i (x # xs) =
     (if b < x then argmax_from x i (Suc i) xs else argmax_from b bi (Suc i) xs)"

definition np_argmax :: "real list \<Rightarrow> error + nat" where
  "np_argmax xs = (case xs of [] \<Rightarrow> Inl ValueError | x # r \<Rightarrow> Inr (argmax_from x 0 1 r))"

section \<open>Group resolution in \<open>parse_cluster3d_full\<close>\<close>

text \<open>
  One pass of the loop \<open>for i, gid in enumerate(np.unique(group_ids))\<close>. The state is
  the array \<open>group_ids\<close> and the counter \<open>new_group\<close>. Indexing the particle vector or
  the cluster vector out of range raises.
\<close>

definition process_veto :: "particle \<Rightarrow> bool" where
  "process_veto p =
     (str_contains ''Inelastic'' (creation_process p)
      \<or> str_contains ''Capture'' (creation_process p)
      \<or> \<bar>parent_pdg_code p\<bar> = 13)"

definition demote :: "nat list \<Rightarrow> nat \<Rightarrow> nat \<Rightarrow> nat list \<times> nat" where
  "demote gids gid new_group =
     (assign_at gids (np_where_eq gids gid) new_group, new_group + 1)"

definition resolve_group ::
  "particle list \<Rightarrow> cluster list \<Rightarrow> nat \<Rightarrow> nat list \<times> nat \<Rightarrow> error + (nat list \<times> nat)" where
  "resolve_group ps cs gid st =
     (case st of (gids, new_group) \<Rightarrow>
        if length ps \<le> gid then Inl IndexError
        else if shape (ps ! gid) \<noteq> 0 \<and> shape (ps ! gid) \<noteq> 4 then Inr (gids, new_group)
        else if process_veto (ps ! gid) then Inr (demote gids gid new_group)
        else if length cs \<le> gid then Inl IndexError
        else if length (cs ! gid) = 0 then Inr (demote gids gid new_group)
        else
          (let idxs = np_where_eq gids gid in
           case np_argmin (map (\<lambda>j. first_step_t (ps ! j)) idxs) of
             Inl e \<Rightarrow> Inl e
           | Inr min_id \<Rightarrow>
               if idxs ! min_id \<noteq> gid then Inr (demote gids gid new_group)
               else Inr (gids, new_group)))"

fun resolve_loop ::
  "particle list \<Rightarrow> cluster list \<Rightarrow> nat list \<Rightarrow> nat list \<times> nat \<Rightarrow> error + (nat list \<times> nat)" where
  "resolve_loop ps cs [] st = Inr st"
| "resolve_loop ps cs (g # gs) st =
     (case resolve_group ps cs g st of
        Inl e \<Rightarrow> Inl e
      | Inr st' \<Rightarrow> resolve_loop ps cs gs st')"

definition resolve_groups :: "particle list \<Rightarrow> cluster list \<Rightarrow> error + (nat list \<times> nat)" where
  "resolve_groups ps cs =
     resolve_loop ps cs (np_unique (map group_id ps)) (map group_id ps, length cs + 1)"

text \<open>
  The second loop, \<open>for i in range(num_clusters)\<close>: every non-empty cluster gives one
  block of voxels and one block of feature rows. \<open>np.concatenate\<close> of an empty list of
  blocks raises.
\<close>

definition cluster_rows :: "particle list \<Rightarrow> nat list \<Rightarrow> nat \<Rightarrow> cluster \<Rightarrow> (voxel \<times> feature) list" where
  "cluster_rows ps gids i c =
     map (\<lambda>(v, x). (v, \<lparr>fvalue = x, cluster_id = particle_id (ps ! i), fgroup_id = gids ! i,
                         sem_type = real_of_int (shape (ps ! i))\<rparr>)) c"

fun assemble ::
  "particle list \<Rightarrow> cluster list \<Rightarrow> nat list \<Rightarrow> nat list \<Rightarrow> error + (voxel \<times> feature) list list" where
  "assemble ps cs gids [] = Inr []"
| "assemble ps cs gids (i # is) =
     (if 0 < length (cs ! i) then
        (if length ps \<le> i then Inl IndexError
         else if i \<noteq> particle_id (ps ! i) then Inl AssertionError
         else (case assemble ps cs gids is of
                 Inl e \<Rightarrow> Inl e
               | Inr blocks \<Rightarrow> Inr (cluster_rows ps gids i (cs ! i) # blocks)))
      else assemble ps cs gids is)"

definition np_concatenate :: "'a list list \<Rightarrow> error + 'a list" where
  "np_concatenate blocks = (if blocks = [] then Inl ValueError else Inr (concat blocks))"

definition parse_cluster3d_full ::
  "particle list \<Rightarrow> cluster list \<Rightarrow> error + (voxel list \<times> feature list)" where
  "parse_cluster3d_full ps cs =
     (case resolve_groups ps cs of
        Inl e \<Rightarrow> Inl e
      | Inr (gids, new_group) \<Rightarrow>
          (case assemble ps cs gids [0..<length cs] of
             Inl e \<Rightarrow> Inl e
           | Inr blocks \<Rightarrow>
               (case np_concatenate blocks of
                  Inl e \<Rightarrow> Inl e
                | Inr rows \<Rightarrow> Inr (map fst rows, map snd rows))))"

section \<open>Vocabulary of the properties\<close>

text \<open>The members of a declared group: the particle ids whose record declares \<open>g\<close>.\<close>

definition members :: "particle list \<Rightarrow> nat \<Rightarrow> nat list" where
  "members ps g = filter (\<lambda>i. group_id (ps ! i) = g) [0..<length ps]"

text \<open>
  The member that is earliest in time, ties going to the lowest particle id: no member
  is strictly earlier, and no member with a smaller id is as early.
\<close>

definition earliest_member :: "particle list \<Rightarrow> nat \<Rightarrow> nat \<Rightarrow> bool" where
  "earliest_member ps g m =
     (m \<in> set (members ps g) \<and>
      (\<forall>j\<in>set (members ps g).
          first_step_t (ps ! m) < first_step_t (ps ! j)
          \<or> (first_step_t (ps ! m) = first_step_t (ps ! j) \<and> m \<le> j)))"

section \<open>Example events\<close>

definition mk_particle :: "nat \<Rightarrow> nat \<Rightarrow> int \<Rightarrow> string \<Rightarrow> int \<Rightarrow> real \<Rightarrow> particle" where
  "mk_particle i g s p c t =
     \<lparr>particle_id = i, group_id = g, shape = s, creation_process = p,
      parent_pdg_code = c, first_step_t = t\<rparr>"

text \<open>Three showers declared as group 0; the second one starts first.\<close>

definition late_primary_particles :: "particle list" where
  "late_primary_particles =
     [mk_particle 0 0 0 ''primary'' 22 5, mk_particle 1 0 0 ''conv'' 22 2,
      mk_particle 2 0 0 ''compt'' 22 8]"

text \<open>The same group with the two first particles starting at the same time.\<close>

definition tie_particles :: "particle list" where
  "tie_particles =
     [mk_particle 0 0 0 ''primary'' 22 2, mk_particle 1 0 0 ''conv'' 22 2,
      mk_particle 2 0 0 ''compt'' 22 8]"

definition shower_clusters :: "cluster list" where
  "shower_clusters = [[((0, 0, 0), 1)], [((1, 0, 0), 1)], []]"

text \<open>Particle 4 is a shower created by muon capture, with a secondary in its group.\<close>

definition capture_particles :: "particle list" where
  "capture_particles =
     [mk_particle 0 0 1 ''primary'' 0 0, mk_particle 1 1 1 ''primary'' 0 0,
      mk_particle 2 2 1 ''primary'' 0 0, mk_particle 3 3 1 ''primary'' 0 0,
      mk_particle 4 4 0 ''muMinusCaptureAtRest'' 22 1, mk_particle 5 4 0 ''compt'' 22 3]"

definition capture_clusters :: "cluster list" where
  "capture_clusters = [[((0, 0, 0), 1)], [], [], [], [((4, 0, 0), 1)], [((5, 0, 0), 1)]]"

text \<open>Eight tracks, each its own group; the cluster of track 7 is empty.\<close>

definition track_particles :: "particle list" where
  "track_particles = map (\<lambda>i. mk_particle i i 1 ''primary'' 0 0) [0..<8]"

definition track_clusters :: "cluster list" where
  "track_clusters = replicate 7 [((0, 0, 0), 1)] @ [[]]"

text \<open>Two groups demoted in one event, by an inelastic primary and by a muon parent.\<close>

definition two_demoted_particles :: "particle list" where
  "two_demoted_particles =
     [mk_particle 0 0 0 ''neutronInelastic'' 2112 1, mk_particle 1 0 0 ''compt'' 22 2,
      mk_particle 2 2 4 ''primary'' 13 1, mk_particle 3 3 1 ''primary'' 0 0]"

definition two_demoted_clusters :: "cluster list" where
  "two_demoted_clusters = [[((0, 0, 0), 1)], [((1, 0, 0), 1)], [((2, 0, 0), 1)], [((3, 0, 0), 1)]]"

text \<open>Eight clusters without a voxel.\<close>

definition empty_clusters :: "cluster list" where
  "empty_clusters = replicate 8 []"

section \<open>The class \<open>Particle\<close> (analysis/classes/Particle.py)\<close>

text \<open>
  The object is a record of its attributes; an attribute that has not been assigned yet
  is \<open>None\<close>. The attributes with a leading underscore in the source carry the prefix
  \<open>p_\<close>. The points, directions and momenta of the source are plain assignments that no
  property here reads, and are left out. The setters of \<open>pid_scores\<close> and
  \<open>primary_scores\<close> index and maximise their argument, which raises on an empty array.
\<close>

record Particle =
  obj_id :: "int option"
  p_fragment_ids :: "nat list option"
  p_num_fragments :: "nat option"
  interaction_id :: "int option"
  nu_id :: "int option"
  image_id :: "int option"
  volume_id :: "int option"
  semantic_type :: "int option"
  p_index :: "nat list option"
  p_size :: "nat option"
  p_depositions :: "real list option"
  p_depositions_sum :: "real option"
  p_pid_scores :: "real list option"
  pid :: "int option"
  p_primary_scores :: "real list option"
  is_primary :: "int option"

text \<open>The arguments of \<open>__init__\<close>.\<close>

record Particle_args =
  arg_group_id :: int
  arg_fragment_ids :: "nat list"
  arg_interaction_id :: int
  arg_nu_id :: int
  arg_volume_id :: int
  arg_image_id :: int
  arg_semantic_type :: int
  arg_pid :: int
  arg_is_primary :: int
  arg_index :: "nat list"
  arg_depositions :: "real list"
  arg_pid_scores :: "real list"
  arg_primary_scores :: "real list"

text \<open>The object before \<open>__init__\<close> has assigned anything.\<close>

definition unset_Particle :: Particle where
  "unset_Particle =
     \<lparr>obj_id = None, p_fragment_ids = None, p_num_fragments = None, interaction_id = None,
      nu_id = None, image_id = None, volume_id = None, semantic_type = None,
      p_index = None, p_size = None, p_depositions = None, p_depositions_sum = None,
      p_pid_scores = None, pid = None, p_primary_scores = None, is_primary = None\<rparr>"

text \<open>The property setters, in the order of the source.\<close>

definition set_fragment_ids :: "nat list \<Rightarrow> Particle \<Rightarrow> Particle" where
  "set_fragment_ids fragment_ids p =
     p\<lparr>p_fragment_ids := Some fragment_ids, p_num_fragments := Some (length fragment_ids)\<rparr>"

definition set_index :: "nat list \<Rightarrow> Particle \<Rightarrow> Particle" where
  "set_index index p = p\<lparr>p_index := Some index, p_size := Some (length index)\<rparr>"

definition set_depositions :: "real list \<Rightarrow> Particle \<Rightarrow> Particle" where
  "set_depositions depositions p =
     p\<lparr>p_depositions := Some depositions, p_depositions_sum := Some (sum_list depositions)\<rparr>"

text \<open>The getters \<open>depositions_sum\<close> and \<open>size\<close>: both return \<open>self._size\<close>.\<close>

definition depositions_sum :: "Particle \<Rightarrow> nat option" where
  "depositions_sum p = p_size p"

definition size_of :: "Particle \<Rightarrow> nat option" where
  "size_of p = p_size p"

text \<open>
  The setter of \<open>pid_scores\<close>: the branch for a negative first score has no
  \<open>return\<close>, so the two assignments after it always run.
\<close>

definition set_pid_scores :: "real list \<Rightarrow> Particle \<Rightarrow> error + Particle" where
  "set_pid_scores pid_scores p =
     (if pid_scores = [] then Inl IndexError
      else
        (let p1 = (if pid_scores ! 0 < 0
                   then p\<lparr>p_pid_scores := Some pid_scores, pid := Some (- 1)\<rparr> else p);
             p2 = p1\<lparr>p_pid_scores := Some pid_scores\<rparr>
         in case np_argmax pid_scores of
              Inl e \<Rightarrow> Inl e
            | Inr k \<Rightarrow> Inr (p2\<lparr>pid := Some (int k)\<rparr>)))"

definition set_primary_scores :: "real list \<Rightarrow> Particle \<Rightarrow> error + Particle" where
  "set_primary_scores primary_scores p =
     (if primary_scores = [] then Inl IndexError
      else
        (let p1 = (if primary_scores ! 0 < 0
                   then p\<lparr>p_primary_scores := Some primary_scores, is_primary := Some (- 1)\<rparr>
                   else p);
             p2 = p1\<lparr>p_primary_scores := Some primary_scores\<rparr>
         in case np_argmax primary_scores of
              Inl e \<Rightarrow> Inl e
            | Inr k \<Rightarrow> Inr (p2\<lparr>is_primary := Some (int k)\<rparr>)))"

text \<open>\<open>np.all(scores < 0)\<close>.\<close>

definition np_all_negative :: "real list \<Rightarrow> bool" where
  "np_all_negative xs = list_all (\<lambda>x. x < 0) xs"

text \<open>\<open>__init__\<close>: the assignments of the constructor, through the setters.\<close>

definition init_Particle :: "Particle_args \<Rightarrow> error + Particle" where
  "init_Particle a =
     (let p = unset_Particle\<lparr>obj_id := Some (arg_group_id a)\<rparr>;
          p = set_fragment_ids (arg_fragment_ids a) p;
          p = p\<lparr>interaction_id := Some (arg_interaction_id a), nu_id := Some (arg_nu_id a),
                image_id := Some (arg_image_id a), volume_id := Some (arg_volume_id a),
                semantic_type := Some (arg_semantic_type a)\<rparr>;
          p = set_index (arg_index a) p;
          p = set_depositions (arg_depositions a) p
      in case set_pid_scores (arg_pid_scores a) p of
           Inl e \<Rightarrow> Inl e
         | Inr p \<Rightarrow>
             (let p = (if np_all_negative (arg_pid_scores a) then p\<lparr>pid := Some (arg_pid a)\<rparr> else p)
              in case set_primary_scores (arg_primary_scores a) p of
                   Inl e \<Rightarrow> Inl e
                 | Inr p \<Rightarrow>
                     Inr (if np_all_negative (arg_primary_scores a)
                          then p\<lparr>is_primary := Some (arg_is_primary a)\<rparr> else p)))"

text \<open>
  The default arguments, with five particle classes for the default scores, and a
  particle of two voxels with depositions 1.5 and 2.5.
\<close>

definition default_args :: Particle_args where
  "default_args =
     \<lparr>arg_group_id = - 1, arg_fragment_ids = [], arg_interaction_id = - 1, arg_nu_id = - 1,
      arg_volume_id = - 1, arg_image_id = - 1, arg_semantic_type = - 1, arg_pid = - 1,
      arg_is_primary = - 1, arg_index = [], arg_depositions = [],
      arg_pid_scores = [- 1, - 1, - 1, - 1, - 1], arg_primary_scores = [- 1, - 1]\<rparr>"

definition deposit_args :: Particle_args where
  "deposit_args = default_args\<lparr>arg_index := [10, 11], arg_depositions := [3 / 2, 5 / 2]\<rparr>"

section \<open>Sparse tensors and \<open>parse_sparse3d_fragment\<close>\<close>

text \<open>
  A sparse tensor (\<open>larcv::EventSparseTensor3D\<close>) is its image meta, of which only
  equality is used, and its stored voxels, each a coordinate and a value.
\<close>

record tensor3d =
  meta :: nat
  voxels3d :: "(voxel \<times> real) list"

text \<open>
  \<open>parse_sparse3d_scn\<close>: the coordinates of the first tensor, and one column of values
  per tensor, joined along the last axis. \<open>np.concatenate\<close> raises on no column and on
  columns of different lengths; a tensor with another meta fails the assertion.
\<close>

fun scn_columns :: "nat \<Rightarrow> tensor3d list \<Rightarrow> error + real list list" where
  "scn_columns m [] = Inr []"
| "scn_columns m (t # ts) =
     (if meta t \<noteq> m then Inl AssertionError
      else (case scn_columns m ts of
              Inl e \<Rightarrow> Inl e
            | Inr cols \<Rightarrow> Inr (map snd (voxels3d t) # cols)))"

definition np_concatenate_last :: "real list list \<Rightarrow> error + real list list" where
  "np_concatenate_last cols =
     (case cols of
        [] \<Rightarrow> Inl ValueError
      | c # cs \<Rightarrow>
          if list_all (\<lambda>d. length d = length c) cs
          then Inr (map (\<lambda>j. map (\<lambda>col. col ! j) (c # cs)) [0..<length c])
          else Inl ValueError)"

definition parse_sparse3d_scn :: "tensor3d list \<Rightarrow> error + (voxel list \<times> real list list)" where
  "parse_sparse3d_scn data =
     (case data of
        [] \<Rightarrow> Inl ValueError
      | t # ts \<Rightarrow>
          (case scn_columns (meta t) ts of
             Inl e \<Rightarrow> Inl e
           | Inr cols \<Rightarrow>
               (case np_concatenate_last (map snd (voxels3d t) # cols) of
                  Inl e \<Rightarrow> Inl e
                | Inr rows \<Rightarrow> Inr (map fst (voxels3d t), rows))))"

text \<open>
  \<open>np.lexsort(voxels.T)\<close>: the stable permutation that sorts by the last key first, so
  by z, then y, then x.
\<close>

definition lexkey :: "voxel \<Rightarrow> int \<times> int \<times> int" where
  "lexkey v = (case v of (x, y, z) \<Rightarrow> (z, y, x))"

definition np_lexsort :: "voxel list \<Rightarrow> nat list" where
  "np_lexsort vs = sort_key (\<lambda>i. lexkey (vs ! i)) [0..<length vs]"

text \<open>Indexing an array with an array of row indices.\<close>

definition take_rows :: "'a list \<Rightarrow> nat list \<Rightarrow> 'a list" where
  "take_rows xs idx = map (\<lambda>i. xs ! i) idx"

text \<open>
  \<open>np.unique(voxels, axis=0, return_index=True)\<close>: the distinct rows in ascending order
  of (x, y, z), and for each the index of its first occurrence in the argument.
\<close>

fun first_index :: "'a list \<Rightarrow> 'a \<Rightarrow> nat" where
  "first_index [] v = 0"
| "first_index (x # xs) v = (if x = v then 0 else Suc (first_index xs v))"

definition np_unique_rows :: "voxel list \<Rightarrow> voxel list \<times> nat list" where
  "np_unique_rows vs = (let us = sort (remdups vs) in (us, map (first_index vs) us))"

text \<open>\<open>data.squeeze(1)\<close> on an array with the given number of columns.\<close>

definition np_squeeze1 :: "nat \<Rightarrow> real list list \<Rightarrow> error + real list" where
  "np_squeeze1 channels rows = (if channels = 1 then Inr (map hd rows) else Inl ValueError)"

text \<open>Indexing with a boolean array, and \<open>np.where(sel)[0]\<close>.\<close>

definition np_mask :: "'a list \<Rightarrow> bool list \<Rightarrow> 'a list" where
  "np_mask xs sel = map fst (filter snd (zip xs sel))"

definition np_where :: "bool list \<Rightarrow> nat list" where
  "np_where sel = filter (\<lambda>i. sel ! i) [0..<length sel]"

definition parse_sparse3d_fragment :: "tensor3d list \<Rightarrow> error + (voxel list \<times> real list list)" where
  "parse_sparse3d_fragment data =
     (case parse_sparse3d_scn data of
        Inl e \<Rightarrow> Inl e
      | Inr (img_voxels, img_data) \<Rightarrow>
          (let perm = np_lexsort img_voxels;
               img_voxels = take_rows img_voxels perm;
               img_data = take_rows img_data perm;
               uniq = np_unique_rows img_voxels;
               img_voxels = fst uniq;
               img_data = take_rows img_data (snd uniq)
           in case np_squeeze1 (length data) img_data of
                Inl e \<Rightarrow> Inl e
              | Inr col \<Rightarrow>
                  (let sel = map (\<lambda>x. x < 4) col;
                       img_voxels = np_mask img_voxels sel;
                       img_data = np_mask img_data sel;
                       perm = np_lexsort img_voxels
                   in Inr (take_rows img_voxels perm, take_rows img_data perm))))"

text \<open>The first row of a tensor that carries a given coordinate.\<close>

definition first_row :: "(voxel \<times> real) list \<Rightarrow> voxel \<Rightarrow> (voxel \<times> real) option" where
  "first_row rows v = find (\<lambda>r. fst r = v) rows"

text \<open>A semantic tensor with two duplicated coordinates and values on both sides of 4.\<close>

definition semantic_tensor :: tensor3d where
  "semantic_tensor =
     \<lparr>meta = 0, voxels3d = [((1, 1, 1), 1), ((0, 0, 0), 0), ((1, 1, 1), 5), ((2, 0, 0), 5),
                           ((0, 0, 2), 2), ((0, 0, 0), 4), ((0, 1, 0), 3)]\<rparr>"

section \<open>\<open>parse_cluster3d_clean_full\<close>\<close>

text \<open>
  Modelled from the spec: \<open>filter_duplicate_voxels\<close> of mlreco/utils/groups.py, which
  is not among the sources. On a sorted coordinate array it gives the selection that
  keeps exactly one row per coordinate, the first occurrence ("first wins").
\<close>

definition filter_duplicate_voxels :: "voxel list \<Rightarrow> bool list" where
  "filter_duplicate_voxels vs = map (\<lambda>i. vs ! i \<notin> set (take i vs)) [0..<length vs]"

text \<open>
  Modelled from the spec: \<open>filter_nonimg_voxels\<close> of mlreco/utils/groups.py, which is
  not among the sources. It selects the rows of the candidate set whose coordinate is
  present in the reference set.
\<close>

definition filter_nonimg_voxels :: "voxel list \<Rightarrow> voxel list \<Rightarrow> bool list" where
  "filter_nonimg_voxels grp img = map (\<lambda>v. v \<in> set img) grp"

text \<open>
  \<open>grp_data[:, -1] = img_data[:, -1]\<close>: the assignment needs as many values as there
  are rows, or a single value, which numpy broadcasts; otherwise it raises.
\<close>

definition assign_last_column :: "feature list \<Rightarrow> real list \<Rightarrow> error + feature list" where
  "assign_last_column fs col =
     (if length col = length fs then Inr (map (\<lambda>(f, x). f\<lparr>sem_type := x\<rparr>) (zip fs col))
      else if length col = 1 then Inr (map (\<lambda>f. f\<lparr>sem_type := col ! 0\<rparr>) fs)
      else Inl ValueError)"

definition parse_cluster3d_clean_full ::
  "particle list \<Rightarrow> cluster list \<Rightarrow> tensor3d \<Rightarrow> error + (voxel list \<times> feature list)" where
  "parse_cluster3d_clean_full ps cs t =
     (case parse_cluster3d_full ps cs of
        Inl e \<Rightarrow> Inl e
      | Inr (grp_voxels, grp_data) \<Rightarrow>
          (case parse_sparse3d_scn [t] of
             Inl e \<Rightarrow> Inl e
           | Inr (img_voxels, img_data) \<Rightarrow>
               (let perm = np_lexsort grp_voxels;
                    grp_voxels = take_rows grp_voxels perm;
                    grp_data = take_rows grp_data perm;
                    perm = np_lexsort img_voxels;
                    img_voxels = take_rows img_voxels perm;
                    img_data = take_rows img_data perm;
                    inds1 = np_where (filter_duplicate_voxels grp_voxels);
                    grp_voxels = take_rows grp_voxels inds1;
                    grp_data = take_rows grp_data inds1;
                    inds2 = np_where (filter_nonimg_voxels grp_voxels img_voxels);
                    grp_voxels = take_rows grp_voxels inds2;
                    grp_data = take_rows grp_data inds2
                in case assign_last_column grp_data (map last img_data) of
                     Inl e \<Rightarrow> Inl e
                   | Inr grp_data \<Rightarrow> Inr (grp_voxels, grp_data))))"

section \<open>\<open>parse_cluster3d_full_extended2\<close>\<close>

text \<open>
  One row of its feature array: voxel value, group id, interaction id, semantic type and
  neutrino flag.
\<close>

record feature_nu =
  nvalue :: real
  ngroup_id :: nat
  ninteraction_id :: int
  nsem_type :: real
  nu_id :: int

text \<open>
  Modelled from the spec: \<open>get_interaction_id\<close> of mlreco/utils/groups.py, which is not
  among the sources. The judgment which groups share an interaction is injected: the
  interaction map of the event, from resolved group id to interaction id, defined on
  the resolved groups of the event. It is applied to the group id of every voxel; a
  group without an interaction breaks the coverage invariant and fails fast.
\<close>

definition get_interaction_id ::
  "(nat \<rightharpoonup> int) \<Rightarrow> particle list \<Rightarrow> feature list \<Rightarrow> error + int list" where
  "get_interaction_id interaction_map ps np_features =
     (if list_all (\<lambda>f. interaction_map (fgroup_id f) \<noteq> None) np_features
      then Inr (map (\<lambda>f. the (interaction_map (fgroup_id f))) np_features)
      else Inl InputMismatch)"

text \<open>
  Modelled from the spec: \<open>get_nu_id\<close> of mlreco/utils/groups.py, which is not among
  the sources. The flag of a voxel is 1 if its interaction id equals the interaction id
  of the interaction containing resolved group 0, else 0; if no interaction contains
  group 0, that is, the interaction map has no entry for group 0, all flags are 0.
  Whether group 0 has a voxel plays no role.
\<close>

definition get_nu_id ::
  "(nat \<rightharpoonup> int) \<Rightarrow> particle list \<Rightarrow> feature list \<Rightarrow> int list \<Rightarrow> int list" where
  "get_nu_id interaction_map ps np_features interaction_ids =
     (case interaction_map 0 of
        None \<Rightarrow> map (\<lambda>i. 0) interaction_ids
      | Some nu \<Rightarrow> map (\<lambda>i. if i = nu then 1 else 0) interaction_ids)"

text \<open>
  The parser itself: the cluster id column is overwritten with the group id, the group
  id column with the interaction id, and the flags are appended as a fifth column.
\<close>

definition parse_cluster3d_full_extended2 ::
  "(nat \<rightharpoonup> int) \<Rightarrow> particle list \<Rightarrow> cluster list \<Rightarrow> error + (voxel list \<times> feature_nu list)" where
  "parse_cluster3d_full_extended2 interaction_map ps cs =
     (case parse_cluster3d_full ps cs of
        Inl e \<Rightarrow> Inl e
      | Inr (np_voxels, np_features) \<Rightarrow>
          (case get_interaction_id interaction_map ps np_features of
             Inl e \<Rightarrow> Inl e
           | Inr interaction_ids \<Rightarrow>
               (let nu_ids = get_nu_id interaction_map ps np_features interaction_ids
                in if length interaction_ids \<noteq> length np_features
                      \<or> length nu_ids \<noteq> length np_features
                   then Inl ValueError
                   else Inr (np_voxels,
                             map (\<lambda>(f, i, n). \<lparr>nvalue = fvalue f, ngroup_id = fgroup_id f,
                                                ninteraction_id = i, nsem_type = sem_type f,
                                                nu_id = n\<rparr>)
                                 (zip np_features (zip interaction_ids nu_ids))))))"

text \<open>
  A track and a shower group of two particles whose clusters overlap, an image of the
  same three coordinates, and an image with one coordinate more.
\<close>

definition clean_particles :: "particle list" where
  "clean_particles =
     [mk_particle 0 0 1 ''primary'' 0 0, mk_particle 1 1 0 ''primary'' 0 1,
      mk_particle 2 1 0 ''conv'' 22 2]"

definition clean_clusters :: "cluster list" where
  "clean_clusters =
     [[((2, 0, 0), 1), ((0, 0, 1), 1), ((5, 5, 5), 1)], [((0, 0, 1), 2), ((1, 0, 0), 2)],
      [((1, 0, 0), 3)]]"

definition clean_image :: tensor3d where
  "clean_image = \<lparr>meta = 0, voxels3d = [((0, 0, 1), 2), ((1, 0, 0), 3), ((2, 0, 0), 4)]\<rparr>"

definition wide_image :: tensor3d where
  "wide_image =
     \<lparr>meta = 0, voxels3d = [((0, 0, 1), 1), ((1, 0, 0), 0), ((2, 0, 0), 1), ((7, 7, 7), 1)]\<rparr>"

text \<open>
  Three tracks, each its own group; groups 0 and 1 share interaction 0. In the second
  cluster vector the cluster of group 0 is empty.
\<close>

definition nu_interaction_map :: "nat \<rightharpoonup> int" where
  "nu_interaction_map = map_of [(0, 0), (1, 0), (2, 1)]"

definition nu_particles :: "particle list" where
  "nu_particles =
     [mk_particle 0 0 1 ''primary'' 0 0, mk_particle 1 1 1 ''primary'' 0 1,
      mk_particle 2 2 1 ''primary'' 0 2]"

definition nu_clusters :: "cluster list" where
  "nu_clusters = [[((0, 0, 0), 1)], [((1, 0, 0), 1)], [((2, 0, 0), 1)]]"

definition cosmic_clusters :: "cluster list" where
  "cosmic_clusters = [[], [((1, 0, 0), 1)], [((2, 0, 0), 1)]]"

text \<open>
  A cosmic-only event: the shower declared as group 0 has no voxel and is demoted to the
  fresh group 4, so no resolved group 0 is left.
\<close>

definition cosmic_particles :: "particle list" where
  "cosmic_particles =
     [mk_particle 0 0 0 ''primary'' 0 0, mk_particle 1 1 1 ''primary'' 0 1,
      mk_particle 2 2 1 ''primary'' 0 2]"

definition cosmic_interaction_map :: "nat \<rightharpoonup> int" where
  "cosmic_interaction_map = map_of [(4, 0), (1, 0), (2, 1)]"

section \<open>Facts about the numpy primitives\<close>

lemma fold_update_length: "length (fold (\<lambda>i acc. acc[i := v]) is gs) = length gs"
  by (induction "is" arbitrary: gs) simp_all

lemma fold_update_nth:
  "k < length gs \<Longrightarrow>
   fold (\<lambda>i acc. acc[i := v]) is gs ! k = (if k \<in> set is then v else gs ! k)"
proof (induction "is" arbitrary: gs)
  case Nil
  then show ?case by simp
next
  case (Cons a "is")
  then show ?case by (simp add: nth_list_update)
qed

lemma demote_map:
  "demote gids g ng = (map (\<lambda>x. if x = g then ng else x) gids, ng + 1)"
proof -
  have "assign_at gids (np_where_eq gids g) ng = map (\<lambda>x. if x = g then ng else x) gids"
    by (rule nth_equalityI)
       (simp_all add: assign_at_def np_where_eq_def fold_update_length fold_update_nth)
  then show ?thesis by (simp add: demote_def)
qed

lemma argmin_from_spec:
  "argmin_from b bi i xs = m \<Longrightarrow>
   (m = bi \<and> (\<forall>x\<in>set xs. b \<le> x))
   \<or> (i \<le> m \<and> m - i < length xs \<and> xs ! (m - i) < b
      \<and> (\<forall>j<length xs. xs ! (m - i) \<le> xs ! j)
      \<and> (\<forall>j<m - i. xs ! (m - i) < xs ! j))"
proof (induction xs arbitrary: b bi i m)
  case Nil
  then show ?case by simp
next
  case (Cons x xs)
  show ?case
  proof (cases "x < b")
    case True
    with Cons.prems have r: "argmin_from x i (Suc i) xs = m" by simp
    from Cons.IH[OF r] show ?thesis
    proof
      assume a: "m = i \<and> (\<forall>y\<in>set xs. x \<le> y)"
      then have "\<forall>j<length (x # xs). (x # xs) ! 0 \<le> (x # xs) ! j"
        by (auto simp: nth_Cons split: nat.splits)
      with a True show ?thesis by simp
    next
      assume a: "Suc i \<le> m \<and> m - Suc i < length xs \<and> xs ! (m - Suc i) < x
        \<and> (\<forall>j<length xs. xs ! (m - Suc i) \<le> xs ! j)
        \<and> (\<forall>j<m - Suc i. xs ! (m - Suc i) < xs ! j)"
      then obtain k where k: "m - i = Suc k" "k = m - Suc i" by (cases "m - i") auto
      from a k True have "(x # xs) ! (m - i) < b" by simp
      moreover from a k have "\<forall>j<length (x # xs). (x # xs) ! (m - i) \<le> (x # xs) ! j"
        by (auto simp: nth_Cons split: nat.splits)
      moreover from a k have "\<forall>j<m - i. (x # xs) ! (m - i) < (x # xs) ! j"
        by (auto simp: nth_Cons split: nat.splits)
      moreover from a k have "i \<le> m" "m - i < length (x # xs)" by auto
      ultimately show ?thesis by blast
    qed
  next
    case False
    with Cons.prems have r: "argmin_from b bi (Suc i) xs = m" by simp
    from Cons.IH[OF r] show ?thesis
    proof
      assume a: "m = bi \<and> (\<forall>y\<in>set xs. b \<le> y)"
      with False show ?thesis by auto
    next
      assume a: "Suc i \<le> m \<and> m - Suc i < length xs \<and> xs ! (m - Suc i) < b
        \<and> (\<forall>j<length xs. xs ! (m - Suc i) \<le> xs ! j)
        \<and> (\<forall>j<m - Suc i. xs ! (m - Suc i) < xs ! j)"
      then obtain k where k: "m - i = Suc k" "k = m - Suc i" by (cases "m - i") auto
      from a k have "(x # xs) ! (m - i) < b" by simp
      moreover from a k False have "\<forall>j<length (x # xs). (x # xs) ! (m - i) \<le> (x # xs) ! j"
        by (auto simp: nth_Cons split: nat.splits)
      moreover from a k False have "\<forall>j<m - i. (x # xs) ! (m - i) < (x # xs) ! j"
        by (auto simp: nth_Cons split: nat.splits)
      moreover from a k have "i \<le> m" "m - i < length (x # xs)" by auto
      ultimately show ?thesis by blast
    qed
  qed
qed

lemma np_argmin_spec:
  assumes "np_argmin xs = Inr m"
  shows "m < length xs \<and> (\<forall>j<length xs. xs ! m \<le> xs ! j) \<and> (\<forall>j<m. xs ! m < xs ! j)"
proof (cases xs)
  case Nil
  with assms show ?thesis by (simp add: np_argmin_def)
next
  case (Cons x r)
  with assms have m: "argmin_from x 0 1 r = m" by (simp add: np_argmin_def)
  from argmin_from_spec[OF m] show ?thesis
  proof
    assume "m = 0 \<and> (\<forall>y\<in>set r. x \<le> y)"
    then show ?thesis using Cons by (auto simp: nth_Cons split: nat.splits)
  next
    assume a: "1 \<le> m \<and> m - 1 < length r \<and> r ! (m - 1) < x
        \<and> (\<forall>j<length r. r ! (m - 1) \<le> r ! j)
        \<and> (\<forall>j<m - 1. r ! (m - 1) < r ! j)"
    then obtain k where k: "m = Suc k" by (cases m) auto
    with a Cons show ?thesis by (auto simp: nth_Cons split: nat.splits)
  qed
qed

lemma np_argmin_nonempty: "xs \<noteq> [] \<Longrightarrow> \<exists>m. np_argmin xs = Inr m"
  by (cases xs) (simp_all add: np_argmin_def)

section \<open>One pass and the whole loop of the group resolution\<close>

lemma resolve_group_cases:
  assumes "resolve_group ps cs g (gids, ng) = Inr st'"
  shows "g < length ps \<and>
         (st' = (gids, ng) \<or> st' = (map (\<lambda>x. if x = g then ng else x) gids, ng + 1))"
  using assms unfolding resolve_group_def demote_map Let_def
  by (simp split: if_splits sum.splits)

lemma map_if_False: "map (\<lambda>x. if False \<and> x = g then v else x) xs = xs"
  by (induction xs) simp_all

lemma resolve_group_flag:
  assumes "resolve_group ps cs g (gids, ng) = Inr (gids1, ng1)"
  shows "g < length ps \<and>
         (\<exists>d. gids1 = map (\<lambda>x. if d \<and> x = g then ng else x) gids \<and>
              ng1 = (if d then ng + 1 else ng))"
proof -
  from resolve_group_cases[OF assms] have g: "g < length ps"
    and c: "(gids1, ng1) = (gids, ng) \<or>
            (gids1, ng1) = (map (\<lambda>x. if x = g then ng else x) gids, ng + 1)"
    by blast+
  from c show ?thesis
  proof
    assume "(gids1, ng1) = (gids, ng)"
    then have "gids1 = map (\<lambda>x. if False \<and> x = g then ng else x) gids \<and>
              ng1 = (if False then ng + 1 else ng)"
      by (simp add: map_if_False)
    with g show ?thesis by blast
  next
    assume "(gids1, ng1) = (map (\<lambda>x. if x = g then ng else x) gids, ng + 1)"
    then have "gids1 = map (\<lambda>x. if True \<and> x = g then ng else x) gids \<and>
              ng1 = (if True then ng + 1 else ng)"
      by simp
    with g show ?thesis by blast
  qed
qed

lemma resolve_loop_append:
  "resolve_loop ps cs (xs @ ys) st =
     (case resolve_loop ps cs xs st of Inl e \<Rightarrow> Inl e | Inr st' \<Rightarrow> resolve_loop ps cs ys st')"
  by (induction xs arbitrary: st) (auto split: sum.splits)

lemma resolve_loop_Cons_run:
  assumes "resolve_loop ps cs (u # us) (gids, ng) = Inr st'"
  obtains d where "u < length ps"
    "resolve_loop ps cs us (map (\<lambda>x. if d \<and> x = u then ng else x) gids, if d then ng + 1 else ng) = Inr st'"
proof -
  from assms obtain gids1 ng1 where
    step: "resolve_group ps cs u (gids, ng) = Inr (gids1, ng1)" and
    rest: "resolve_loop ps cs us (gids1, ng1) = Inr st'"
    by (auto split: sum.splits)
  from resolve_group_flag[OF step] rest that show thesis by blast
qed

lemma resolve_loop_length:
  "resolve_loop ps cs us (gids, ng) = Inr (gids', ng') \<Longrightarrow> length gids' = length gids"
proof (induction us arbitrary: gids ng)
  case Nil
  then show ?case by simp
next
  case (Cons u us)
  from Cons.prems obtain d where
    "resolve_loop ps cs us (map (\<lambda>x. if d \<and> x = u then ng else x) gids,
       if d then ng + 1 else ng) = Inr (gids', ng')"
    by (rule resolve_loop_Cons_run)
  from Cons.IH[OF this] show ?case by simp
qed

lemma resolve_loop_counter:
  "resolve_loop ps cs us (gids, ng) = Inr (gids', ng') \<Longrightarrow> ng \<le> ng'"
proof (induction us arbitrary: gids ng)
  case Nil
  then show ?case by simp
next
  case (Cons u us)
  from Cons.prems obtain d where
    "resolve_loop ps cs us (map (\<lambda>x. if d \<and> x = u then ng else x) gids,
       if d then ng + 1 else ng) = Inr (gids', ng')"
    by (rule resolve_loop_Cons_run)
  from Cons.IH[OF this] show ?case by (simp split: if_splits)
qed

lemma resolve_loop_bound:
  "resolve_loop ps cs us st = Inr st' \<Longrightarrow> u \<in> set us \<Longrightarrow> u < length ps"
proof (induction us arbitrary: st)
  case Nil
  then show ?case by simp
next
  case (Cons a us)
  obtain gids ng where st: "st = (gids, ng)" by (cases st)
  from Cons.prems(1) st have "resolve_loop ps cs (a # us) (gids, ng) = Inr st'" by simp
  then obtain d where a: "a < length ps" and
    r: "resolve_loop ps cs us (map (\<lambda>x. if d \<and> x = a then ng else x) gids,
       if d then ng + 1 else ng) = Inr st'"
    by (rule resolve_loop_Cons_run)
  show ?case
  proof (cases "u = a")
    case True
    with a show ?thesis by simp
  next
    case False
    with Cons.prems(2) have "u \<in> set us" by simp
    from Cons.IH[OF r this] show ?thesis .
  qed
qed

lemma resolve_loop_keep:
  "resolve_loop ps cs us (gids, ng) = Inr (gids', ng') \<Longrightarrow> i < length gids \<Longrightarrow>
   gids ! i \<notin> set us \<Longrightarrow> gids' ! i = gids ! i"
proof (induction us arbitrary: gids ng)
  case Nil
  then show ?case by simp
next
  case (Cons u us)
  from Cons.prems(1) obtain d where
    r: "resolve_loop ps cs us (map (\<lambda>x. if d \<and> x = u then ng else x) gids,
       if d then ng + 1 else ng) = Inr (gids', ng')"
    by (rule resolve_loop_Cons_run)
  from Cons.prems(3) have n: "gids ! i \<noteq> u" "gids ! i \<notin> set us" by simp_all
  from n Cons.prems(2)
  have a: "map (\<lambda>x. if d \<and> x = u then ng else x) gids ! i = gids ! i" by simp
  have "gids' ! i = map (\<lambda>x. if d \<and> x = u then ng else x) gids ! i"
    by (rule Cons.IH[OF r]) (use Cons.prems(2) a n in simp_all)
  with a show ?case by simp
qed

lemma resolve_loop_range:
  "resolve_loop ps cs us (gids, ng) = Inr (gids', ng') \<Longrightarrow> i < length gids \<Longrightarrow>
   gids' ! i = gids ! i \<or> (ng \<le> gids' ! i \<and> gids' ! i < ng')"
proof (induction us arbitrary: gids ng)
  case Nil
  then show ?case by simp
next
  case (Cons u us)
  from Cons.prems(1) obtain d where
    r: "resolve_loop ps cs us (map (\<lambda>x. if d \<and> x = u then ng else x) gids,
       if d then ng + 1 else ng) = Inr (gids', ng')"
    by (rule resolve_loop_Cons_run)
  let ?g1 = "map (\<lambda>x. if d \<and> x = u then ng else x) gids"
  let ?n1 = "if d then ng + 1 else ng"
  have i1: "i < length ?g1" using Cons.prems(2) by simp
  from resolve_loop_counter[OF r] have mono: "?n1 \<le> ng'" .
  from Cons.IH[OF r i1]
  have "gids' ! i = ?g1 ! i \<or> (?n1 \<le> gids' ! i \<and> gids' ! i < ng')" .
  then show ?case
  proof
    assume a: "gids' ! i = ?g1 ! i"
    show ?thesis
    proof (cases "d \<and> gids ! i = u")
      case True
      with a Cons.prems(2) have "gids' ! i = ng" by simp
      moreover from True mono have "ng < ng'" by simp
      ultimately show ?thesis by simp
    next
      case False
      with a Cons.prems(2) have "gids' ! i = gids ! i" by auto
      then show ?thesis by simp
    qed
  next
    assume b: "?n1 \<le> gids' ! i \<and> gids' ! i < ng'"
    then have "ng \<le> gids' ! i" by (simp split: if_splits)
    with b show ?thesis by simp
  qed
qed

lemma resolve_loop_equal:
  "resolve_loop ps cs us (gids, ng) = Inr (gids', ng') \<Longrightarrow> i < length gids \<Longrightarrow>
   j < length gids \<Longrightarrow> gids ! i = gids ! j \<Longrightarrow> gids' ! i = gids' ! j"
proof (induction us arbitrary: gids ng)
  case Nil
  then show ?case by simp
next
  case (Cons u us)
  from Cons.prems(1) obtain d where
    r: "resolve_loop ps cs us (map (\<lambda>x. if d \<and> x = u then ng else x) gids,
       if d then ng + 1 else ng) = Inr (gids', ng')"
    by (rule resolve_loop_Cons_run)
  show ?case
    by (rule Cons.IH[OF r]) (use Cons.prems in simp_all)
qed

lemma resolve_loop_split:
  assumes run: "resolve_loop ps cs us st = Inr st'" and g: "g \<in> set us" and d: "distinct us"
  shows "\<exists>pre post stA stB. us = pre @ g # post \<and> g \<notin> set pre \<and> g \<notin> set post \<and>
           resolve_loop ps cs pre st = Inr stA \<and>
           resolve_group ps cs g stA = Inr stB \<and>
           resolve_loop ps cs post stB = Inr st'"
proof -
  from g obtain pre post where us: "us = pre @ g # post" by (auto dest: split_list)
  with d have n: "g \<notin> set pre" "g \<notin> set post" by auto
  from run us obtain stA where a: "resolve_loop ps cs pre st = Inr stA"
    and r: "resolve_loop ps cs (g # post) stA = Inr st'"
    by (auto simp: resolve_loop_append split: sum.splits)
  from r obtain stB where b: "resolve_group ps cs g stA = Inr stB"
    and p: "resolve_loop ps cs post stB = Inr st'"
    by (auto split: sum.splits)
  from us n a b p show ?thesis by blast
qed

lemma np_unique_props:
  "distinct (np_unique xs)" "sorted (np_unique xs)" "set (np_unique xs) = set xs"
  by (simp_all add: np_unique_def)

lemma resolve_groups_at:
  assumes run: "resolve_groups ps cs = Inr (gids', ng')" and g: "g \<in> set (map group_id ps)"
  obtains pre post gidsA ngA gidsB ngB where
    "np_unique (map group_id ps) = pre @ g # post" "g \<notin> set pre" "g \<notin> set post"
    "resolve_loop ps cs pre (map group_id ps, length cs + 1) = Inr (gidsA, ngA)"
    "resolve_group ps cs g (gidsA, ngA) = Inr (gidsB, ngB)"
    "resolve_loop ps cs post (gidsB, ngB) = Inr (gids', ng')"
proof -
  from g have "g \<in> set (np_unique (map group_id ps))" by (simp only: np_unique_props)
  from resolve_loop_split[OF run[unfolded resolve_groups_def] this np_unique_props(1)]
  obtain pre post stA stB where
    a: "np_unique (map group_id ps) = pre @ g # post" "g \<notin> set pre" "g \<notin> set post"
    "resolve_loop ps cs pre (map group_id ps, length cs + 1) = Inr stA"
    "resolve_group ps cs g stA = Inr stB"
    "resolve_loop ps cs post stB = Inr (gids', ng')"
    by blast
  obtain gidsA ngA where sa: "stA = (gidsA, ngA)" by (cases stA)
  obtain gidsB ngB where sb: "stB = (gidsB, ngB)" by (cases stB)
  from a sa sb that show thesis by blast
qed

lemma resolve_group_gate:
  "shape (ps ! g) \<noteq> 0 \<Longrightarrow> shape (ps ! g) \<noteq> 4 \<Longrightarrow>
   resolve_group ps cs g st = Inr st' \<Longrightarrow> st' = st"
  by (cases st) (simp add: resolve_group_def split: if_splits)

lemma resolve_group_veto:
  "g < length ps \<Longrightarrow> shape (ps ! g) = 0 \<or> shape (ps ! g) = 4 \<Longrightarrow> process_veto (ps ! g) \<Longrightarrow>
   resolve_group ps cs g (gids, ng) = Inr (demote gids g ng)"
  by (auto simp add: resolve_group_def)

lemma members_iff: "i \<in> set (members ps g) \<longleftrightarrow> i < length ps \<and> group_id (ps ! i) = g"
  by (auto simp: members_def)

text \<open>After a demotion at g, all positions that held g share one final id, a counter value.\<close>

lemma demoted_final:
  assumes post: "resolve_loop ps cs post (map (\<lambda>x. if x = g then ng else x) gids, ng + 1) = Inr (gids', ng')"
  shows "\<exists>f. ng \<le> f \<and> f < ng' \<and> (\<forall>i<length gids. gids ! i = g \<longrightarrow> gids' ! i = f)"
proof (cases "\<exists>k<length gids. gids ! k = g")
  case False
  from resolve_loop_counter[OF post] have "ng < ng'" by simp
  moreover from False have "\<forall>i<length gids. gids ! i = g \<longrightarrow> gids' ! i = ng" by blast
  ultimately have "ng \<le> ng \<and> ng < ng' \<and> (\<forall>i<length gids. gids ! i = g \<longrightarrow> gids' ! i = ng)"
    by simp
  then show ?thesis by (rule exI)
next
  case True
  then obtain k where k: "k < length gids" "gids ! k = g" by blast
  let ?B = "map (\<lambda>x. if x = g then ng else x) gids"
  have kB: "k < length ?B" using k by simp
  from resolve_loop_counter[OF post] have c: "ng + 1 \<le> ng'" .
  from resolve_loop_range[OF post kB] k
  have r: "gids' ! k = ng \<or> (ng + 1 \<le> gids' ! k \<and> gids' ! k < ng')" by simp
  have "\<forall>i<length gids. gids ! i = g \<longrightarrow> gids' ! i = gids' ! k"
  proof (intro allI impI)
    fix i assume i: "i < length gids" and gi: "gids ! i = g"
    have "?B ! i = ?B ! k" using i gi k by simp
    moreover have "i < length ?B" using i by simp
    ultimately show "gids' ! i = gids' ! k" using resolve_loop_equal[OF post _ kB] by blast
  qed
  moreover from r c have "ng \<le> gids' ! k \<and> gids' ! k < ng'" by auto
  ultimately show ?thesis by blast
qed

lemma pre_state:
  assumes pre: "resolve_loop ps cs pre (map group_id ps, n0) = Inr (gidsA, ngA)"
    and g: "g \<notin> set pre"
  shows "length gidsA = length ps" "n0 \<le> ngA"
    "\<And>i. i < length ps \<Longrightarrow> group_id (ps ! i) = g \<Longrightarrow> gidsA ! i = g"
    "\<And>i. i < length ps \<Longrightarrow> gidsA ! i = g \<Longrightarrow> g < n0 \<Longrightarrow> group_id (ps ! i) = g"
proof -
  show "length gidsA = length ps" using resolve_loop_length[OF pre] by simp
  show "n0 \<le> ngA" using resolve_loop_counter[OF pre] .
  show "gidsA ! i = g" if "i < length ps" "group_id (ps ! i) = g" for i
    using resolve_loop_keep[OF pre, of i] that g by simp
  show "group_id (ps ! i) = g" if "i < length ps" "gidsA ! i = g" "g < n0" for i
  proof -
    from that(1) have "i < length (map group_id ps)" by simp
    from resolve_loop_range[OF pre this] that
    show ?thesis by (simp split: if_splits)
  qed
qed

lemma earliest_member_unique:
  assumes "earliest_member ps g m" "earliest_member ps g e"
  shows "m = e"
proof -
  from assms have m: "m \<in> set (members ps g)" and e: "e \<in> set (members ps g)"
    by (simp_all add: earliest_member_def)
  from assms(1) e have 1: "first_step_t (ps ! m) < first_step_t (ps ! e)
          \<or> (first_step_t (ps ! m) = first_step_t (ps ! e) \<and> m \<le> e)"
    unfolding earliest_member_def by blast
  from assms(2) m have 2: "first_step_t (ps ! e) < first_step_t (ps ! m)
          \<or> (first_step_t (ps ! e) = first_step_t (ps ! m) \<and> e \<le> m)"
    unfolding earliest_member_def by blast
  from 1 2 show ?thesis by auto
qed

lemma members_sorted: "sorted (members ps g)"
  unfolding members_def by (rule sorted_wrt_filter) simp

lemma argmin_is_earliest:
  assumes k: "np_argmin (map (\<lambda>j. first_step_t (ps ! j)) (members ps g)) = Inr k"
  shows "k < length (members ps g) \<and> earliest_member ps g (members ps g ! k)"
proof -
  let ?ms = "members ps g"
  let ?t = "\<lambda>j. first_step_t (ps ! j)"
  note sp = np_argmin_spec[OF k]
  from sp have kl: "k < length ?ms" by simp
  have le: "?t (?ms ! k) \<le> ?t (?ms ! j)" if "j < length ?ms" for j
  proof -
    from that have "j < length (map ?t ?ms)" by simp
    with sp have "map ?t ?ms ! k \<le> map ?t ?ms ! j" by blast
    with kl that show ?thesis by simp
  qed
  have lt: "?t (?ms ! k) < ?t (?ms ! j)" if "j < k" for j
  proof -
    from sp that have "map ?t ?ms ! k < map ?t ?ms ! j" by blast
    with kl that show ?thesis by simp
  qed
  have "\<forall>x\<in>set ?ms. ?t (?ms ! k) < ?t x \<or> (?t (?ms ! k) = ?t x \<and> ?ms ! k \<le> x)"
  proof
    fix x assume "x \<in> set ?ms"
    then obtain j where j: "j < length ?ms" "x = ?ms ! j" by (auto simp: in_set_conv_nth)
    show "?t (?ms ! k) < ?t x \<or> (?t (?ms ! k) = ?t x \<and> ?ms ! k \<le> x)"
    proof (cases "j < k")
      case True
      from lt[OF True] j show ?thesis by simp
    next
      case False
      then have "k \<le> j" by simp
      with members_sorted[of ps g] j have "?ms ! k \<le> ?ms ! j" by (simp add: sorted_nth_mono)
      moreover from le[OF j(1)] have "?t (?ms ! k) \<le> ?t (?ms ! j)" .
      ultimately show ?thesis using j by auto
    qed
  qed
  with kl show ?thesis by (simp add: earliest_member_def)
qed

lemma np_where_eq_nonempty: "u \<in> set gids \<Longrightarrow> np_where_eq gids u \<noteq> []"
proof -
  assume "u \<in> set gids"
  then obtain i where "i < length gids" "gids ! i = u" by (auto simp: in_set_conv_nth)
  then have "i \<in> set (np_where_eq gids u)" by (simp add: np_where_eq_def)
  then show ?thesis by auto
qed

lemma resolve_group_error:
  assumes "resolve_group ps cs u (gids, ng) = Inl e" and "u \<in> set gids"
  shows "e = IndexError"
proof -
  from np_where_eq_nonempty[OF assms(2)]
  have "map (\<lambda>j. first_step_t (ps ! j)) (np_where_eq gids u) \<noteq> []" by simp
  from np_argmin_nonempty[OF this] obtain m where
    "np_argmin (map (\<lambda>j. first_step_t (ps ! j)) (np_where_eq gids u)) = Inr m" by blast
  with assms(1) show ?thesis
    by (simp add: resolve_group_def Let_def split: if_splits)
qed

lemma resolve_loop_error:
  "resolve_loop ps cs us (gids, ng) = Inl e \<Longrightarrow> set us \<subseteq> set gids \<Longrightarrow> distinct us \<Longrightarrow>
   e = IndexError"
proof (induction us arbitrary: gids ng)
  case Nil
  then show ?case by simp
next
  case (Cons u us)
  from Cons.prems(2) have u: "u \<in> set gids" by simp
  show ?case
  proof (cases "resolve_group ps cs u (gids, ng)")
    case (Inl x)
    with Cons.prems(1) have "x = e" by simp
    with Inl resolve_group_error[OF _ u] show ?thesis by blast
  next
    case (Inr st1)
    obtain gids1 ng1 where st1: "st1 = (gids1, ng1)" by (cases st1)
    from Inr st1 Cons.prems(1) have r: "resolve_loop ps cs us (gids1, ng1) = Inl e" by simp
    from Inr st1 resolve_group_flag obtain d where
      gd: "gids1 = map (\<lambda>x. if d \<and> x = u then ng else x) gids" by blast
    have "set us \<subseteq> set gids1"
    proof
      fix x assume x: "x \<in> set us"
      with Cons.prems(3) have "x \<noteq> u" by auto
      moreover from x Cons.prems(2) have "x \<in> set gids" by auto
      ultimately have "x \<in> (\<lambda>x. if d \<and> x = u then ng else x) ` set gids" by force
      with gd show "x \<in> set gids1" by simp
    qed
    moreover from Cons.prems(3) have "distinct us" by simp
    ultimately show ?thesis using Cons.IH[OF r] by blast
  qed
qed

lemma resolve_groups_error: "resolve_groups ps cs = Inl e \<Longrightarrow> e = IndexError"
  unfolding resolve_groups_def
  by (erule resolve_loop_error) (simp_all add: np_unique_props)

lemma resolve_group_time:
  assumes gl: "g < length ps" and s: "shape (ps ! g) = 0 \<or> shape (ps ! g) = 4"
    and v: "\<not> process_veto (ps ! g)" and gc: "g < length cs" and ne: "cs ! g \<noteq> []"
    and w: "np_where_eq gids g = members ps g"
    and r: "resolve_group ps cs g (gids, ng) = Inr st'"
  shows "\<exists>k. np_argmin (map (\<lambda>j. first_step_t (ps ! j)) (members ps g)) = Inr k \<and>
             st' = (if members ps g ! k \<noteq> g then demote gids g ng else (gids, ng))"
  using assms
  by (auto simp add: resolve_group_def Let_def split: if_splits sum.splits)

lemma time_ordering_run:
  assumes run: "resolve_groups ps cs = Inr (gids', ng')"
    and g: "g \<in> set (map group_id ps)"
    and s: "shape (ps ! g) = 0 \<or> shape (ps ! g) = 4"
    and v: "\<not> process_veto (ps ! g)"
    and gc: "g < length cs" and ne: "cs ! g \<noteq> []"
    and m: "earliest_member ps g m"
  shows "(m \<noteq> g \<longrightarrow> (\<exists>f. length cs < f \<and> f < ng' \<and> (\<forall>i\<in>set (members ps g). gids' ! i = f)))
       \<and> (m = g \<longrightarrow> (\<forall>i\<in>set (members ps g). gids' ! i = g))"
proof -
  from resolve_groups_at[OF run g] obtain pre post gidsA ngA gidsB ngB where
    a1: "g \<notin> set pre" and a2: "g \<notin> set post" and
    a3: "resolve_loop ps cs pre (map group_id ps, length cs + 1) = Inr (gidsA, ngA)" and
    a4: "resolve_group ps cs g (gidsA, ngA) = Inr (gidsB, ngB)" and
    a5: "resolve_loop ps cs post (gidsB, ngB) = Inr (gids', ng')"
    by metis
  from resolve_group_cases[OF a4] have gl: "g < length ps" by simp
  have A1: "length gidsA = length ps" by (rule pre_state(1)[OF a3 a1])
  have A2: "length cs + 1 \<le> ngA" by (rule pre_state(2)[OF a3 a1])
  have mem: "gidsA ! i = g" if "i \<in> set (members ps g)" for i
  proof -
    from that have i: "i < length ps" "group_id (ps ! i) = g" by (simp_all add: members_iff)
    show ?thesis by (rule pre_state(3)[OF a3 a1 i])
  qed
  have w: "np_where_eq gidsA g = members ps g"
    unfolding np_where_eq_def members_def A1
  proof (rule filter_cong[OF refl])
    fix i assume "i \<in> set [0..<length ps]"
    then have i: "i < length ps" by simp
    from gc have gn: "g < length cs + 1" by simp
    show "(gidsA ! i = g) = (group_id (ps ! i) = g)"
      using pre_state(3)[OF a3 a1 i] pre_state(4)[OF a3 a1 i _ gn] by blast
  qed
  from resolve_group_time[OF gl s v gc ne w a4] obtain k where
    k: "np_argmin (map (\<lambda>j. first_step_t (ps ! j)) (members ps g)) = Inr k" and
    st: "(gidsB, ngB) = (if members ps g ! k \<noteq> g then demote gidsA g ngA else (gidsA, ngA))"
    by blast
  from argmin_is_earliest[OF k] have "earliest_member ps g (members ps g ! k)" by simp
  from earliest_member_unique[OF m this] have mk: "members ps g ! k = m" by simp
  have 1: "\<exists>f. length cs < f \<and> f < ng' \<and> (\<forall>i\<in>set (members ps g). gids' ! i = f)" if "m \<noteq> g"
  proof -
    from st mk that have "(gidsB, ngB) = (map (\<lambda>x. if x = g then ngA else x) gidsA, ngA + 1)"
      by (simp add: demote_map)
    with a5 have "resolve_loop ps cs post (map (\<lambda>x. if x = g then ngA else x) gidsA, ngA + 1)
       = Inr (gids', ng')" by simp
    from demoted_final[OF this] obtain f where
      f1: "ngA \<le> f" and f2: "f < ng'" and
      f3: "\<forall>i<length gidsA. gidsA ! i = g \<longrightarrow> gids' ! i = f" by blast
    have "\<forall>i\<in>set (members ps g). gids' ! i = f"
    proof
      fix i assume i: "i \<in> set (members ps g)"
      then have "i < length gidsA" by (simp add: members_iff A1)
      with mem[OF i] f3 show "gids' ! i = f" by blast
    qed
    moreover from f1 A2 have "length cs < f" by simp
    ultimately show ?thesis using f2 by blast
  qed
  have 2: "\<forall>i\<in>set (members ps g). gids' ! i = g" if "m = g"
  proof
    fix i assume i: "i \<in> set (members ps g)"
    from st mk that have B: "gidsB = gidsA" by simp
    from i have il: "i < length gidsB" by (simp add: members_iff A1 B)
    from mem[OF i] B have gi: "gidsB ! i = g" by simp
    with a2 have "gidsB ! i \<notin> set post" by simp
    from resolve_loop_keep[OF a5 il this] gi show "gids' ! i = g" by simp
  qed
  from 1 2 show ?thesis by blast
qed

lemma resolve_loop_order:
  "resolve_loop ps cs us (gids, ng) = Inr (gids', ng') \<Longrightarrow> sorted us \<Longrightarrow> distinct us \<Longrightarrow>
   \<forall>u\<in>set us. u < ng \<Longrightarrow> i < length gids \<Longrightarrow> j < length gids \<Longrightarrow> gids ! i < gids ! j \<Longrightarrow>
   gids' ! i \<noteq> gids ! i \<Longrightarrow> gids' ! j \<noteq> gids ! j \<Longrightarrow> gids' ! i < gids' ! j"
proof (induction us arbitrary: gids ng)
  case Nil
  then show ?case by simp
next
  case (Cons u us)
  from Cons.prems(1) obtain d where
    r: "resolve_loop ps cs us (map (\<lambda>x. if d \<and> x = u then ng else x) gids,
       if d then ng + 1 else ng) = Inr (gids', ng')"
    by (rule resolve_loop_Cons_run)
  let ?g1 = "map (\<lambda>x. if d \<and> x = u then ng else x) gids"
  let ?n1 = "if d then ng + 1 else ng"
  have i1: "i < length ?g1" and j1: "j < length ?g1" using Cons.prems(5,6) by simp_all
  have srt: "sorted us" and dst: "distinct us" and unotin: "u \<notin> set us"
    using Cons.prems(2,3) by simp_all
  have ule: "\<And>x. x \<in> set us \<Longrightarrow> u \<le> x" using Cons.prems(2) by simp
  have bnd: "\<forall>x\<in>set us. x < ?n1" using Cons.prems(4) by auto
  have ngnotin: "ng \<notin> set us" using Cons.prems(4) by auto
  have iin: "gids ! i \<in> set (u # us)"
    using resolve_loop_keep[OF Cons.prems(1) Cons.prems(5)] Cons.prems(8) by blast
  show ?case
  proof (cases "gids ! i = u")
    case True
    have d: d
    proof (rule ccontr)
      assume "\<not> d"
      with True Cons.prems(5) have "?g1 ! i = u" by simp
      with unotin have "?g1 ! i \<notin> set us" by simp
      from resolve_loop_keep[OF r i1 this] \<open>?g1 ! i = u\<close> True Cons.prems(8)
      show False by simp
    qed
    with True Cons.prems(5) have gi: "?g1 ! i = ng" by simp
    with ngnotin have "?g1 ! i \<notin> set us" by simp
    from resolve_loop_keep[OF r i1 this] gi have fi: "gids' ! i = ng" by simp
    from True Cons.prems(7) have "gids ! j \<noteq> u" by simp
    with Cons.prems(6) have gj: "?g1 ! j = gids ! j" by simp
    from resolve_loop_range[OF r j1] gj Cons.prems(9) have "?n1 \<le> gids' ! j" by simp
    with d fi show ?thesis by simp
  next
    case False
    with iin have "gids ! i \<in> set us" by simp
    from ule[OF this] Cons.prems(7) have "gids ! j \<noteq> u" by simp
    with Cons.prems(6) have gj: "?g1 ! j = gids ! j" by simp
    from False Cons.prems(5) have gi: "?g1 ! i = gids ! i" by simp
    show ?thesis
      by (rule Cons.IH[OF r srt dst bnd i1 j1]) (use gi gj Cons.prems(7,8,9) in simp_all)
  qed
qed

lemma resolve_loop_onto:
  "resolve_loop ps cs us (gids, ng) = Inr (gids', ng') \<Longrightarrow> distinct us \<Longrightarrow>
   set us \<subseteq> set gids \<Longrightarrow> \<forall>u\<in>set us. u < ng \<Longrightarrow> ng \<le> f \<Longrightarrow> f < ng' \<Longrightarrow>
   \<exists>i<length gids. gids' ! i = f \<and> gids ! i \<noteq> gids' ! i"
proof (induction us arbitrary: gids ng)
  case Nil
  then show ?case by simp
next
  case (Cons u us)
  from Cons.prems(1) obtain d where
    r: "resolve_loop ps cs us (map (\<lambda>x. if d \<and> x = u then ng else x) gids,
       if d then ng + 1 else ng) = Inr (gids', ng')"
    by (rule resolve_loop_Cons_run)
  let ?g1 = "map (\<lambda>x. if d \<and> x = u then ng else x) gids"
  let ?n1 = "if d then ng + 1 else ng"
  have dst: "distinct us" and unotin: "u \<notin> set us" using Cons.prems(2) by simp_all
  have ngnotin: "ng \<notin> set us" using Cons.prems(4) by auto
  have ung: "u < ng" using Cons.prems(4) by simp
  have bnd: "\<forall>x\<in>set us. x < ?n1" using Cons.prems(4) by auto
  have sub: "set us \<subseteq> set ?g1"
  proof
    fix x assume x: "x \<in> set us"
    with unotin have "x \<noteq> u" by auto
    moreover from x Cons.prems(3) have "x \<in> set gids" by auto
    ultimately have "x \<in> (\<lambda>x. if d \<and> x = u then ng else x) ` set gids" by force
    then show "x \<in> set ?g1" by simp
  qed
  show ?case
  proof (cases "?n1 \<le> f")
    case True
    from Cons.IH[OF r dst sub bnd True Cons.prems(6)] obtain i where
      i: "i < length ?g1" "gids' ! i = f" "?g1 ! i \<noteq> gids' ! i" by blast
    from i(1) have il: "i < length gids" by simp
    have "gids ! i \<noteq> gids' ! i"
    proof (cases "d \<and> gids ! i = u")
      case True
      with il have gi: "?g1 ! i = ng" by simp
      with ngnotin have "?g1 ! i \<notin> set us" by simp
      from resolve_loop_keep[OF r i(1) this] i(3) show ?thesis by simp
    next
      case False
      with il have "?g1 ! i = gids ! i" by auto
      with i(3) show ?thesis by simp
    qed
    with il i(2) show ?thesis by blast
  next
    case False
    with Cons.prems(5) have d: d and f: "f = ng" by (simp_all split: if_splits)
    from Cons.prems(3) obtain i where i: "i < length gids" "gids ! i = u"
      by (auto simp: in_set_conv_nth)
    then have i1: "i < length ?g1" by simp
    from i d have gi: "?g1 ! i = ng" by simp
    with ngnotin have "?g1 ! i \<notin> set us" by simp
    from resolve_loop_keep[OF r i1 this] gi have "gids' ! i = ng" by simp
    with i f ung show ?thesis by auto
  qed
qed

section \<open>Facts about the assembly of the output\<close>

lemma cluster_rows_empty: "cluster_rows ps gids i c = [] \<longleftrightarrow> c = []"
  by (simp add: cluster_rows_def)

lemma assemble_blocks:
  "assemble ps cs gids is = Inr blocks \<Longrightarrow>
   (\<forall>b\<in>set blocks. b \<noteq> []) \<and>
   (blocks \<noteq> [] \<longrightarrow> (\<exists>i\<in>set is. cs ! i \<noteq> [] \<and> i < length ps))"
proof (induction "is" arbitrary: blocks)
  case Nil
  then show ?case by simp
next
  case (Cons i "is")
  show ?case
  proof (cases "cs ! i = []")
    case True
    with Cons.prems have "assemble ps cs gids is = Inr blocks" by simp
    from Cons.IH[OF this] show ?thesis by auto
  next
    case False
    with Cons.prems obtain bs where
      i: "i < length ps" and r: "assemble ps cs gids is = Inr bs"
      and b: "blocks = cluster_rows ps gids i (cs ! i) # bs"
      by (auto split: if_splits sum.splits)
    from Cons.IH[OF r] have "\<forall>b\<in>set bs. b \<noteq> []" by simp
    with b False have "\<forall>b\<in>set blocks. b \<noteq> []" by (simp add: cluster_rows_empty)
    moreover from False i have "\<exists>j\<in>set (i # is). cs ! j \<noteq> [] \<and> j < length ps" by auto
    ultimately show ?thesis by blast
  qed
qed

lemma parse_cluster3d_full_returns:
  assumes "parse_cluster3d_full ps cs = Inr (vs, fs)"
  shows "vs \<noteq> [] \<and> fs \<noteq> [] \<and> length vs = length fs \<and> ps \<noteq> [] \<and> (\<exists>c\<in>set cs. c \<noteq> [])"
proof -
  from assms obtain gids ng blocks where
    a: "assemble ps cs gids [0..<length cs] = Inr blocks" and
    ne: "blocks \<noteq> []" and vs: "vs = map fst (concat blocks)" and fs: "fs = map snd (concat blocks)"
    by (auto simp: parse_cluster3d_full_def np_concatenate_def split: sum.splits if_splits)
  from assemble_blocks[OF a] ne have b: "\<forall>b\<in>set blocks. b \<noteq> []"
    and i: "\<exists>i\<in>set [0..<length cs]. cs ! i \<noteq> [] \<and> i < length ps" by blast+
  from ne obtain b0 bs where "blocks = b0 # bs" by (cases blocks) auto
  with b have "concat blocks \<noteq> []" by simp
  with vs fs have 1: "vs \<noteq> [] \<and> fs \<noteq> [] \<and> length vs = length fs" by simp
  from i obtain k where k: "k < length cs" "cs ! k \<noteq> []" "k < length ps" by auto
  then have "ps \<noteq> []" by auto
  moreover from k have "\<exists>c\<in>set cs. c \<noteq> []" by (metis nth_mem)
  ultimately show ?thesis using 1 by blast
qed

section \<open>Facts about the class \<open>Particle\<close>\<close>

lemma argmax_from_spec:
  "argmax_from b bi i xs = m \<Longrightarrow>
   (m = bi \<and> (\<forall>x\<in>set xs. x \<le> b))
   \<or> (i \<le> m \<and> m - i < length xs \<and> b < xs ! (m - i)
      \<and> (\<forall>j<length xs. xs ! j \<le> xs ! (m - i))
      \<and> (\<forall>j<m - i. xs ! j < xs ! (m - i)))"
proof (induction xs arbitrary: b bi i m)
  case Nil
  then show ?case by simp
next
  case (Cons x xs)
  show ?case
  proof (cases "b < x")
    case True
    with Cons.prems have r: "argmax_from x i (Suc i) xs = m" by simp
    from Cons.IH[OF r] show ?thesis
    proof
      assume a: "m = i \<and> (\<forall>y\<in>set xs. y \<le> x)"
      then have "\<forall>j<length (x # xs). (x # xs) ! j \<le> (x # xs) ! 0"
        by (auto simp: nth_Cons split: nat.splits)
      with a True show ?thesis by simp
    next
      assume a: "Suc i \<le> m \<and> m - Suc i < length xs \<and> x < xs ! (m - Suc i)
        \<and> (\<forall>j<length xs. xs ! j \<le> xs ! (m - Suc i))
        \<and> (\<forall>j<m - Suc i. xs ! j < xs ! (m - Suc i))"
      then obtain k where k: "m - i = Suc k" "k = m - Suc i" by (cases "m - i") auto
      from a k True have "b < (x # xs) ! (m - i)" by simp
      moreover from a k have "\<forall>j<length (x # xs). (x # xs) ! j \<le> (x # xs) ! (m - i)"
        by (auto simp: nth_Cons split: nat.splits)
      moreover from a k have "\<forall>j<m - i. (x # xs) ! j < (x # xs) ! (m - i)"
        by (auto simp: nth_Cons split: nat.splits)
      moreover from a k have "i \<le> m" "m - i < length (x # xs)" by auto
      ultimately show ?thesis by blast
    qed
  next
    case False
    with Cons.prems have r: "argmax_from b bi (Suc i) xs = m" by simp
    from Cons.IH[OF r] show ?thesis
    proof
      assume a: "m = bi \<and> (\<forall>y\<in>set xs. y \<le> b)"
      with False show ?thesis by auto
    next
      assume a: "Suc i \<le> m \<and> m - Suc i < length xs \<and> b < xs ! (m - Suc i)
        \<and> (\<forall>j<length xs. xs ! j \<le> xs ! (m - Suc i))
        \<and> (\<forall>j<m - Suc i. xs ! j < xs ! (m - Suc i))"
      then obtain k where k: "m - i = Suc k" "k = m - Suc i" by (cases "m - i") auto
      from a k have "b < (x # xs) ! (m - i)" by simp
      moreover from a k False have "\<forall>j<length (x # xs). (x # xs) ! j \<le> (x # xs) ! (m - i)"
        by (auto simp: nth_Cons split: nat.splits)
      moreover from a k False have "\<forall>j<m - i. (x # xs) ! j < (x # xs) ! (m - i)"
        by (auto simp: nth_Cons split: nat.splits)
      moreover from a k have "i \<le> m" "m - i < length (x # xs)" by auto
      ultimately show ?thesis by blast
    qed
  qed
qed

lemma np_argmax_spec:
  assumes "np_argmax xs = Inr m"
  shows "m < length xs \<and> (\<forall>j<length xs. xs ! j \<le> xs ! m) \<and> (\<forall>j<m. xs ! j < xs ! m)"
proof (cases xs)
  case Nil
  with assms show ?thesis by (simp add: np_argmax_def)
next
  case (Cons x r)
  with assms have m: "argmax_from x 0 1 r = m" by (simp add: np_argmax_def)
  from argmax_from_spec[OF m] show ?thesis
  proof
    assume "m = 0 \<and> (\<forall>y\<in>set r. y \<le> x)"
    then show ?thesis using Cons by (auto simp: nth_Cons split: nat.splits)
  next
    assume a: "1 \<le> m \<and> m - 1 < length r \<and> x < r ! (m - 1)
        \<and> (\<forall>j<length r. r ! j \<le> r ! (m - 1))
        \<and> (\<forall>j<m - 1. r ! j < r ! (m - 1))"
    then obtain k where k: "m = Suc k" by (cases m) auto
    with a Cons show ?thesis by (auto simp: nth_Cons split: nat.splits)
  qed
qed

lemma np_argmax_nonempty: "xs \<noteq> [] \<Longrightarrow> \<exists>m. np_argmax xs = Inr m"
  by (cases xs) (simp_all add: np_argmax_def)

lemma set_pid_scores_result:
  assumes "np_argmax s = Inr k"
  shows "set_pid_scores s p = Inr (p\<lparr>p_pid_scores := Some s, pid := Some (int k)\<rparr>)"
proof -
  from assms have "s \<noteq> []" by (auto simp: np_argmax_def)
  with assms show ?thesis by (simp add: set_pid_scores_def Let_def)
qed

lemma set_primary_scores_pid:
  "set_primary_scores r p = Inr p' \<Longrightarrow> pid p' = pid p"
  by (auto simp: set_primary_scores_def Let_def split: if_splits sum.splits)

lemma init_Particle_pid:
  assumes k: "np_argmax (arg_pid_scores a) = Inr k" and i: "init_Particle a = Inr p'"
  shows "pid p' = (if np_all_negative (arg_pid_scores a) then Some (arg_pid a) else Some (int k))"
  using i unfolding init_Particle_def Let_def set_pid_scores_result[OF k]
  by (auto split: sum.splits if_splits dest!: set_primary_scores_pid)

section \<open>Facts about sorting, gathering and \<open>parse_sparse3d_fragment\<close>\<close>

lemma insort_key_map:
  "map g (insort_key (\<lambda>i. f (g i)) i is) = insort_key f (g i) (map g is)"
  by (induction "is") simp_all

lemma sort_key_map: "map g (sort_key (\<lambda>i. f (g i)) is) = sort_key f (map g is)"
  by (induction "is") (simp_all add: insort_key_map)

lemma take_rows_lexsort:
  "take_rows xs (sort_key (\<lambda>i. f (xs ! i)) [0..<length xs]) = sort_key f xs"
  unfolding take_rows_def by (simp add: sort_key_map map_nth)

lemma np_lexsort_range: "i \<in> set (np_lexsort vs) \<Longrightarrow> i < length vs"
  by (simp add: np_lexsort_def)

lemma take_rows_map:
  "\<forall>i\<in>set idx. i < length xs \<Longrightarrow> take_rows (map h xs) idx = map h (take_rows xs idx)"
  by (simp add: take_rows_def)

lemma take_rows_lexsort_voxels: "take_rows vs (np_lexsort vs) = sort_key lexkey vs"
  by (simp only: np_lexsort_def take_rows_lexsort)

lemma insort_key_cong_set:
  assumes "f i = h i" and "\<forall>j\<in>set is. f j = h j"
  shows "insort_key f i is = insort_key h i is"
  using assms(2)
proof (induction "is")
  case Nil
  show ?case by simp
next
  case (Cons a "is")
  then have a: "f a = h a" and r: "\<forall>j\<in>set is. f j = h j" by simp_all
  from Cons.IH[OF r] have ih: "insort_key f i is = insort_key h i is" .
  show ?case unfolding insort_key.simps a assms(1) ih ..
qed

lemma sort_key_cong_set:
  assumes "\<forall>j\<in>set is. f j = h j"
  shows "sort_key f is = sort_key h is"
  using assms
proof (induction "is")
  case Nil
  show ?case by simp
next
  case (Cons a "is")
  then have a: "f a = h a" and r: "\<forall>j\<in>set is. f j = h j" by simp_all
  from Cons.IH[OF r] have ih: "sort_key f is = sort_key h is" .
  have s: "\<forall>j\<in>set (sort_key h is). f j = h j" using r by simp
  show ?case unfolding sort_key_simps ih by (rule insort_key_cong_set[OF a s])
qed

lemma np_lexsort_map_fst:
  "np_lexsort (map fst rows) = sort_key (\<lambda>i. (lexkey \<circ> fst) (rows ! i)) [0..<length rows]"
proof -
  have "sort_key (\<lambda>i. lexkey (map fst rows ! i)) [0..<length rows]
      = sort_key (\<lambda>i. (lexkey \<circ> fst) (rows ! i)) [0..<length rows]"
    by (rule sort_key_cong_set) simp
  then show ?thesis by (simp add: np_lexsort_def)
qed

lemma take_rows_sorted_rows:
  "take_rows rows (np_lexsort (map fst rows)) = sort_key (lexkey \<circ> fst) rows"
  by (simp only: np_lexsort_map_fst take_rows_lexsort)

lemma first_index_find:
  "v \<in> set (map fst xs) \<Longrightarrow>
   first_index (map fst xs) v < length xs \<and>
   find (\<lambda>r. fst r = v) xs = Some (xs ! first_index (map fst xs) v)"
  by (induction xs) auto

lemma np_mask_map: "np_mask (map g xs) (map p xs) = map g (filter p xs)"
  unfolding np_mask_def by (induction xs) simp_all

lemma np_mask_filter: "np_mask xs (map p xs) = filter p xs"
  using np_mask_map[of "\<lambda>x. x" xs p] by simp

lemma find_filter_hd:
  "find P xs = (case filter P xs of [] \<Rightarrow> None | x # r \<Rightarrow> Some x)"
  by (induction xs) simp_all

lemma sort_key_same_key: "\<forall>x\<in>set xs. f x = c \<Longrightarrow> sort_key f xs = xs"
proof (rule sort_key_id_if_sorted)
  assume "\<forall>x\<in>set xs. f x = c"
  then have "map f xs = replicate (length xs) c" by (induction xs) simp_all
  then show "sorted (map f xs)" by (simp add: sorted_replicate)
qed

lemma find_sort_key_stable:
  assumes "\<And>r. P r \<Longrightarrow> f r = c"
  shows "find P (sort_key f xs) = find P xs"
proof -
  have "filter P (sort_key f xs) = sort_key f (filter P xs)" by (rule filter_sort)
  also have "\<dots> = filter P xs" by (rule sort_key_same_key[where c = c]) (simp add: assms)
  finally show ?thesis by (simp add: find_filter_hd)
qed

lemma first_row_sorted:
  "first_row (sort_key (lexkey \<circ> fst) rows) v = first_row rows v"
  unfolding first_row_def
  by (rule find_sort_key_stable[where c = "lexkey v"]) simp

lemma parse_sparse3d_scn_single:
  "parse_sparse3d_scn [t] = Inr (map fst (voxels3d t), map (\<lambda>r. [snd r]) (voxels3d t))"
proof -
  have "map (\<lambda>j. [map snd (voxels3d t) ! j]) [0..<length (voxels3d t)]
        = map (\<lambda>r. [snd r]) (voxels3d t)"
    by (rule nth_equalityI) simp_all
  then show ?thesis
    by (simp add: parse_sparse3d_scn_def np_concatenate_last_def)
qed

lemma parse_sparse3d_fragment_single:
  assumes "parse_sparse3d_fragment data = Inr r"
  shows "\<exists>t. data = [t]"
proof -
  from assms have "length data = 1"
    by (auto simp: parse_sparse3d_fragment_def Let_def np_squeeze1_def
             split: sum.splits prod.splits if_splits)
  then show ?thesis by (cases data) auto
qed

lemma parse_sparse3d_fragment_char:
  fixes t :: tensor3d
  defines "S0 \<equiv> sort_key (lexkey \<circ> fst) (voxels3d t)"
  defines "x0 \<equiv> \<lambda>u. snd (S0 ! first_index (map fst S0) u)"
  defines "us \<equiv> sort (remdups (map fst S0))"
  shows "parse_sparse3d_fragment [t] =
           Inr (sort_key lexkey (filter (\<lambda>u. x0 u < 4) us),
                map (\<lambda>u. [x0 u]) (sort_key lexkey (filter (\<lambda>u. x0 u < 4) us)))"
proof -
  let ?R = "voxels3d t"
  let ?perm = "np_lexsort (map fst ?R)"
  have rng: "\<forall>i\<in>set ?perm. i < length ?R" using np_lexsort_range[of _ "map fst ?R"] by auto
  have v1: "take_rows (map fst ?R) ?perm = map fst S0"
    by (simp only: take_rows_map[OF rng] take_rows_sorted_rows S0_def)
  have d1: "take_rows (map (\<lambda>r. [snd r]) ?R) ?perm = map (\<lambda>r. [snd r]) S0"
    by (simp only: take_rows_map[OF rng] take_rows_sorted_rows S0_def)
  have u: "np_unique_rows (map fst S0) = (us, map (first_index (map fst S0)) us)"
    by (simp add: np_unique_rows_def us_def Let_def)
  have fi: "\<forall>i\<in>set (map (first_index (map fst S0)) us). i < length S0"
  proof
    fix i assume "i \<in> set (map (first_index (map fst S0)) us)"
    then obtain v where v: "v \<in> set us" "i = first_index (map fst S0) v" by auto
    from v(1) have "v \<in> set (map fst S0)" by (simp add: us_def)
    from first_index_find[OF this] v(2) show "i < length S0" by simp
  qed
  have d2: "take_rows (map (\<lambda>r. [snd r]) S0) (map (first_index (map fst S0)) us)
            = map (\<lambda>u. [x0 u]) us"
    by (simp only: take_rows_map[OF fi]) (simp add: take_rows_def x0_def)
  have col: "map hd (map (\<lambda>u. [x0 u]) us) = map x0 us" by simp
  have sel: "map (\<lambda>x. x < 4) (map x0 us) = map (\<lambda>u. x0 u < 4) us" by simp
  let ?V = "filter (\<lambda>u. x0 u < 4) us"
  have v3: "np_mask us (map (\<lambda>u. x0 u < 4) us) = ?V" by (rule np_mask_filter)
  have d3: "np_mask (map (\<lambda>u. [x0 u]) us) (map (\<lambda>u. x0 u < 4) us) = map (\<lambda>u. [x0 u]) ?V"
    by (rule np_mask_map)
  have rng2: "\<forall>i\<in>set (np_lexsort ?V). i < length ?V" using np_lexsort_range[of _ ?V] by auto
  have v4: "take_rows ?V (np_lexsort ?V) = sort_key lexkey ?V" by (rule take_rows_lexsort_voxels)
  have d4: "take_rows (map (\<lambda>u. [x0 u]) ?V) (np_lexsort ?V) = map (\<lambda>u. [x0 u]) (sort_key lexkey ?V)"
    by (simp only: take_rows_map[OF rng2] v4)
  show ?thesis
    unfolding parse_sparse3d_fragment_def parse_sparse3d_scn_single
    by (simp only: sum.case prod.case Let_def v1 d1 u fst_conv snd_conv d2 np_squeeze1_def
        list.size length_Cons col)
       (simp add: o_def v3 d3 v4 d4)
qed

lemma first_index_fst:
  "v \<in> set (map fst xs) \<Longrightarrow> fst (xs ! first_index (map fst xs) v) = v"
  by (induction xs) auto

lemma first_row_first_index:
  assumes "v \<in> set (map fst xs)"
  shows "first_row xs v = Some (v, snd (xs ! first_index (map fst xs) v))"
proof -
  from first_index_find[OF assms]
  have "first_row xs v = Some (xs ! first_index (map fst xs) v)" by (simp add: first_row_def)
  moreover have "xs ! first_index (map fst xs) v = (v, snd (xs ! first_index (map fst xs) v))"
    using first_index_fst[OF assms] by (simp add: prod_eq_iff)
  ultimately show ?thesis by simp
qed

lemma first_row_Some_fst:
  assumes "first_row xs v = Some (w, x)"
  shows "v \<in> set (map fst xs) \<and> w = v"
proof -
  from assms obtain i where i: "i < length xs" "fst (xs ! i) = v" "(w, x) = xs ! i"
    unfolding first_row_def find_Some_iff by blast
  from i(2,3) have "w = v" by (metis fst_conv)
  moreover from i(1,2) have "v \<in> set (map fst xs)" by (metis nth_mem image_eqI set_map)
  ultimately show ?thesis by simp
qed

section \<open>Facts about \<open>parse_cluster3d_clean_full\<close> and the neutrino flag\<close>

lemma zip_upt_nth: "zip xs [0..<length xs] = map (\<lambda>i. (xs ! i, i)) [0..<length xs]"
  by (rule nth_equalityI) simp_all

lemma take_rows_filter_upt:
  "take_rows xs (filter P [0..<length xs]) = nths xs {i. P i}"
proof -
  have "nths xs {i. P i} = map fst (filter (\<lambda>p. snd p \<in> {i. P i}) (zip xs [0..<length xs]))"
    by (simp add: nths_def)
  also have "\<dots> = map fst (map (\<lambda>i. (xs ! i, i)) (filter P [0..<length xs]))"
    by (simp only: zip_upt_nth filter_map) (simp add: o_def)
  also have "\<dots> = take_rows xs (filter P [0..<length xs])"
    by (simp add: take_rows_def o_def)
  finally show ?thesis by simp
qed

lemma np_where_range: "i \<in> set (np_where sel) \<Longrightarrow> i < length sel"
  by (simp add: np_where_def)

lemma np_where_map_upt: "np_where (map P [0..<n]) = filter P [0..<n]"
  unfolding np_where_def by (rule filter_cong) simp_all

lemma np_where_map: "np_where (map p xs) = filter (\<lambda>i. p (xs ! i)) [0..<length xs]"
  unfolding np_where_def by (rule filter_cong) simp_all

lemma take_rows_where_map: "take_rows xs (np_where (map p xs)) = filter p xs"
proof -
  have "filter p xs = filter p (map ((!) xs) [0..<length xs])" by (simp add: map_nth)
  also have "\<dots> = map ((!) xs) (filter (p \<circ> (!) xs) [0..<length xs])" by (rule filter_map)
  also have "\<dots> = take_rows xs (np_where (map p xs))"
    by (simp add: take_rows_def np_where_map o_def)
  finally show ?thesis by simp
qed

lemma first_occurrences_set:
  "set (nths vs {i. vs ! i \<notin> set (take i vs)}) = set vs"
proof
  show "set (nths vs {i. vs ! i \<notin> set (take i vs)}) \<subseteq> set vs" by (rule set_nths_subset)
  show "set vs \<subseteq> set (nths vs {i. vs ! i \<notin> set (take i vs)})"
  proof
    fix v assume "v \<in> set vs"
    then have ex: "\<exists>i. i < length vs \<and> vs ! i = v" by (simp add: in_set_conv_nth)
    define i where "i = (LEAST i. i < length vs \<and> vs ! i = v)"
    from LeastI_ex[OF ex] have i: "i < length vs" "vs ! i = v" by (simp_all add: i_def)
    have "v \<notin> set (take i vs)"
    proof
      assume "v \<in> set (take i vs)"
      then obtain j where j: "j < length (take i vs)" "take i vs ! j = v"
        by (auto simp: in_set_conv_nth)
      then have "j < i" "j < length vs \<and> vs ! j = v" by simp_all
      from Least_le[of "\<lambda>i. i < length vs \<and> vs ! i = v" j, OF this(2)] \<open>j < i\<close>
      show False by (simp add: i_def)
    qed
    with i have "\<exists>k. v = vs ! k \<and> k < length vs \<and> vs ! k \<notin> set (take k vs)" by blast
    then show "v \<in> set (nths vs {i. vs ! i \<notin> set (take i vs)})" by (simp add: set_nths)
  qed
qed

lemma first_occurrences_distinct:
  "distinct (nths vs {i. vs ! i \<notin> set (take i vs)})"
proof (rule card_distinct)
  let ?A = "{i. i < length vs \<and> i \<in> {i. vs ! i \<notin> set (take i vs)}}"
  have inj: "inj_on ((!) vs) ?A"
  proof (rule inj_onI)
    fix i j assume i: "i \<in> ?A" and j: "j \<in> ?A" and e: "vs ! i = vs ! j"
    show "i = j"
    proof (rule ccontr)
      assume n: "i \<noteq> j"
      show False
      proof (cases "i < j")
        case True
        with j have "vs ! i \<in> set (take j vs)"
          by (auto simp: in_set_conv_nth intro!: exI[of _ i])
        with e j show False by simp
      next
        case False
        with n have "j < i" by simp
        with i have "vs ! j \<in> set (take i vs)"
          by (auto simp: in_set_conv_nth intro!: exI[of _ j])
        with e i show False by simp
      qed
    qed
  qed
  have "set (nths vs {i. vs ! i \<notin> set (take i vs)}) = (!) vs ` ?A"
    by (auto simp: set_nths)
  then have "card (set (nths vs {i. vs ! i \<notin> set (take i vs)})) = card ?A"
    by (simp only: card_image[OF inj])
  also have "\<dots> = length (nths vs {i. vs ! i \<notin> set (take i vs)})"
    by (simp only: length_nths)
  finally show "card (set (nths vs {i. vs ! i \<notin> set (take i vs)}))
      = length (nths vs {i. vs ! i \<notin> set (take i vs)})" .
qed

lemma inj_lexkey: "inj lexkey"
  by (rule injI) (auto simp: lexkey_def split: prod.splits)

lemma lexkey_sorted_unique:
  assumes "sorted (map lexkey xs)" "distinct xs" "sorted (map lexkey ys)" "distinct ys"
    and "set xs = set ys"
  shows "xs = ys"
proof -
  have "map lexkey xs = map lexkey ys"
  proof (rule sorted_distinct_set_unique)
    show "sorted (map lexkey xs)" "sorted (map lexkey ys)" by fact+
    have i: "inj_on lexkey A" for A by (rule inj_on_subset[OF inj_lexkey]) simp
    show "distinct (map lexkey xs)" using assms(2) i by (simp add: distinct_map)
    show "distinct (map lexkey ys)" using assms(4) i by (simp add: distinct_map)
    show "set (map lexkey xs) = set (map lexkey ys)" using assms(5) by simp
  qed
  then show ?thesis using inj_lexkey by (simp add: inj_map_eq_map)
qed

lemma parse_cluster3d_full_rows:
  assumes "parse_cluster3d_full ps cs = Inr (gv, gd)"
  shows "\<exists>G. gv = map fst G \<and> gd = map snd G"
  using assms
  by (auto simp: parse_cluster3d_full_def split: sum.splits prod.splits)

lemma parse_cluster3d_clean_full_char:
  fixes G :: "(voxel \<times> feature) list" and t :: tensor3d
  assumes full: "parse_cluster3d_full ps cs = Inr (map fst G, map snd G)"
  defines "SG \<equiv> sort_key (lexkey \<circ> fst) G"
  defines "D \<equiv> nths SG {i. map fst SG ! i \<notin> set (take i (map fst SG))}"
  defines "SI \<equiv> sort_key (lexkey \<circ> fst) (voxels3d t)"
  defines "E \<equiv> filter (\<lambda>r. fst r \<in> set (map fst SI)) D"
  shows "parse_cluster3d_clean_full ps cs t =
           (case assign_last_column (map snd E) (map snd SI) of
              Inl e \<Rightarrow> Inl e
            | Inr fs \<Rightarrow> Inr (map fst E, fs))"
proof -
  let ?p1 = "np_lexsort (map fst G)"
  have r1: "\<forall>i\<in>set ?p1. i < length G" using np_lexsort_range[of _ "map fst G"] by auto
  have gv1: "take_rows (map fst G) ?p1 = map fst SG"
    by (simp only: take_rows_map[OF r1] take_rows_sorted_rows SG_def)
  have gd1: "take_rows (map snd G) ?p1 = map snd SG"
    by (simp only: take_rows_map[OF r1] take_rows_sorted_rows SG_def)
  let ?I = "voxels3d t"
  let ?p2 = "np_lexsort (map fst ?I)"
  have r2: "\<forall>i\<in>set ?p2. i < length ?I" using np_lexsort_range[of _ "map fst ?I"] by auto
  have iv1: "take_rows (map fst ?I) ?p2 = map fst SI"
    by (simp only: take_rows_map[OF r2] take_rows_sorted_rows SI_def)
  have id1: "take_rows (map (\<lambda>r. [snd r]) ?I) ?p2 = map (\<lambda>r. [snd r]) SI"
    by (simp only: take_rows_map[OF r2] take_rows_sorted_rows SI_def)
  let ?P1 = "\<lambda>i. map fst SG ! i \<notin> set (take i (map fst SG))"
  have i1: "np_where (filter_duplicate_voxels (map fst SG)) = filter ?P1 [0..<length SG]"
    by (simp add: filter_duplicate_voxels_def np_where_map_upt)
  have r3: "\<forall>i\<in>set (filter ?P1 [0..<length SG]). i < length SG" by simp
  have d0: "take_rows SG (filter ?P1 [0..<length SG]) = D"
    unfolding D_def by (rule take_rows_filter_upt)
  have gv2: "take_rows (map fst SG) (filter ?P1 [0..<length SG]) = map fst D"
    by (simp only: take_rows_map[OF r3] d0)
  have gd2: "take_rows (map snd SG) (filter ?P1 [0..<length SG]) = map snd D"
    by (simp only: take_rows_map[OF r3] d0)
  let ?q = "\<lambda>r. fst r \<in> set (map fst SI)"
  have i2: "np_where (filter_nonimg_voxels (map fst D) (map fst SI)) = np_where (map ?q D)"
    by (simp add: filter_nonimg_voxels_def o_def)
  have r4: "\<forall>i\<in>set (np_where (map ?q D)). i < length D" using np_where_range[of _ "map ?q D"] by auto
  have e0: "take_rows D (np_where (map ?q D)) = E"
    unfolding E_def by (rule take_rows_where_map)
  have gv3: "take_rows (map fst D) (np_where (map ?q D)) = map fst E"
    by (simp only: take_rows_map[OF r4] e0)
  have gd3: "take_rows (map snd D) (np_where (map ?q D)) = map snd E"
    by (simp only: take_rows_map[OF r4] e0)
  have col: "map last (map (\<lambda>r. [snd r]) SI) = map snd SI" by simp
  show ?thesis
    unfolding parse_cluster3d_clean_full_def full parse_sparse3d_scn_single
    by (simp only: sum.case prod.case Let_def gv1 gd1 iv1 id1 i1 gv2 gd2 i2 gv3 gd3 col)
qed

lemma first_index_distinct:
  "distinct ys \<Longrightarrow> k < length ys \<Longrightarrow> first_index ys (ys ! k) = k"
proof (induction ys arbitrary: k)
  case Nil
  then show ?case by simp
next
  case (Cons y ys)
  show ?case
  proof (cases k)
    case 0
    then show ?thesis by simp
  next
    case (Suc j)
    with Cons.prems have j: "j < length ys" and d: "distinct ys" and n: "y \<notin> set ys" by simp_all
    from j n have "ys ! j \<noteq> y" by (metis nth_mem)
    with Cons.IH[OF d j] Suc show ?thesis by simp
  qed
qed

lemma first_row_distinct:
  assumes "distinct (map fst xs)" "k < length xs"
  shows "first_row xs (fst (xs ! k)) = Some (xs ! k)"
proof -
  from assms(2) have m: "fst (xs ! k) \<in> set (map fst xs)" by (metis nth_mem image_eqI set_map)
  from assms have "first_index (map fst xs) (map fst xs ! k) = k"
    by (intro first_index_distinct) simp_all
  with assms(2) have "first_index (map fst xs) (fst (xs ! k)) = k" by simp
  with first_row_first_index[OF m] show ?thesis by simp
qed

lemma assign_last_column_cases:
  assumes "assign_last_column fs0 col = Inr fs"
  shows "(length col = length fs0 \<and> fs = map (\<lambda>(f, x). f\<lparr>sem_type := x\<rparr>) (zip fs0 col))
       \<or> (length col \<noteq> length fs0 \<and> length col = 1 \<and> fs = map (\<lambda>f. f\<lparr>sem_type := col ! 0\<rparr>) fs0)"
  using assms by (simp add: assign_last_column_def split: if_splits)

lemma get_interaction_id_result:
  assumes "get_interaction_id imap ps feats = Inr iids"
  shows "iids = map (\<lambda>f. the (imap (fgroup_id f))) feats
       \<and> (\<forall>f\<in>set feats. imap (fgroup_id f) \<noteq> None)"
  using assms by (simp add: get_interaction_id_def list_all_iff split: if_splits)

lemma get_nu_id_nth:
  assumes "k < length iids"
  shows "get_nu_id imap ps feats iids ! k
       = (case imap 0 of None \<Rightarrow> 0 | Some nu \<Rightarrow> if iids ! k = nu then 1 else 0)"
  using assms by (simp add: get_nu_id_def split: option.splits)

lemma get_nu_id_length: "length (get_nu_id imap ps feats iids) = length iids"
  by (simp add: get_nu_id_def split: option.splits)

section \<open>Properties of the group resolution\<close>

text \<open>
  C4 (shape gate). When \<open>parse_cluster3d_full\<close> resolves the groups of an event, every
  particle whose declared group has a primary of a shape other than shower (0) and
  low-energy (4) keeps its declared group id: track, michel and delta groups are never
  demoted, whatever the voxel count of their clusters.
\<close>

theorem shape_gate_keeps_declared:
  assumes run: "resolve_groups ps cs = Inr (gids', ng')"
    and i: "i < length ps"
    and s0: "shape (ps ! group_id (ps ! i)) \<noteq> 0" and s4: "shape (ps ! group_id (ps ! i)) \<noteq> 4"
  shows "gids' ! i = group_id (ps ! i)"
proof -
  define g where "g = group_id (ps ! i)"
  from i have g: "g \<in> set (map group_id ps)" unfolding g_def by simp
  from resolve_groups_at[OF run g] obtain pre post gidsA ngA gidsB ngB where
    a1: "g \<notin> set pre" and a2: "g \<notin> set post" and
    a3: "resolve_loop ps cs pre (map group_id ps, length cs + 1) = Inr (gidsA, ngA)" and
    a4: "resolve_group ps cs g (gidsA, ngA) = Inr (gidsB, ngB)" and
    a5: "resolve_loop ps cs post (gidsB, ngB) = Inr (gids', ng')"
    by metis
  have gi: "group_id (ps ! i) = g" by (simp add: g_def)
  have A1: "length gidsA = length ps" by (rule pre_state(1)[OF a3 a1])
  have A2: "gidsA ! i = g" by (rule pre_state(3)[OF a3 a1 i gi])
  from s0 s4 have s: "shape (ps ! g) \<noteq> 0" "shape (ps ! g) \<noteq> 4" by (simp_all add: g_def)
  from resolve_group_gate[OF s a4] have "gidsB = gidsA" by simp
  with A1 A2 i have B: "i < length gidsB" "gidsB ! i = g" by simp_all
  from B(2) a2 have "gidsB ! i \<notin> set post" by simp
  from resolve_loop_keep[OF a5 B(1) this] B(2) gi show ?thesis by simp
qed

text \<open>The track with declared group 7 and an empty cluster keeps group id 7.\<close>

theorem shape_gate_keeps_declared_witness:
  "resolve_groups track_particles track_clusters = Inr ([0, 1, 2, 3, 4, 5, 6, 7], 9)
   \<and> track_clusters ! 7 = []
   \<and> shape (track_particles ! 7) = 1
   \<and> group_id (track_particles ! 7) = 7
   \<and> [0, 1, 2, 3, 4, 5, 6, 7] ! 7 = group_id (track_particles ! 7)"
proof -
  have run: "resolve_groups track_particles track_clusters = Inr ([0, 1, 2, 3, 4, 5, 6, 7], 9)"
    by code_simp
  have i: "7 < length track_particles" by code_simp
  have s0: "shape (track_particles ! group_id (track_particles ! 7)) \<noteq> 0" by code_simp
  have s4: "shape (track_particles ! group_id (track_particles ! 7)) \<noteq> 4" by code_simp
  have c: "track_clusters ! 7 = []" by code_simp
  have s: "shape (track_particles ! 7) = 1" by code_simp
  have g: "group_id (track_particles ! 7) = 7" by code_simp
  from shape_gate_keeps_declared[OF run i s0 s4] run c s g show ?thesis by simp
qed

text \<open>
  C2 (process/PDG veto). For a declared group \<open>g\<close> whose primary passes the shape gate,
  if the primary's creation process contains "Inelastic" or "Capture", or the absolute
  value of its parent PDG code is 13, then all members of the group end with one common
  fresh group id (a value of the counter, above the number of clusters). The pass for
  \<open>g\<close> demotes and stops without reading the cluster vector or the times: it gives the
  same result for every cluster vector, also one too short to hold cluster \<open>g\<close>.
\<close>

theorem process_veto_demotes:
  assumes run: "resolve_groups ps cs = Inr (gids', ng')"
    and g: "g \<in> set (map group_id ps)"
    and s: "shape (ps ! g) = 0 \<or> shape (ps ! g) = 4"
    and v: "process_veto (ps ! g)"
  shows "(\<exists>f. length cs < f \<and> f < ng' \<and> (\<forall>i\<in>set (members ps g). gids' ! i = f))
       \<and> (\<forall>cs' gids ng. resolve_group ps cs' g (gids, ng) = Inr (demote gids g ng))"
proof -
  from resolve_groups_at[OF run g] obtain pre post gidsA ngA gidsB ngB where
    a1: "g \<notin> set pre" and a2: "g \<notin> set post" and
    a3: "resolve_loop ps cs pre (map group_id ps, length cs + 1) = Inr (gidsA, ngA)" and
    a4: "resolve_group ps cs g (gidsA, ngA) = Inr (gidsB, ngB)" and
    a5: "resolve_loop ps cs post (gidsB, ngB) = Inr (gids', ng')"
    by metis
  from resolve_group_cases[OF a4] have gl: "g < length ps" by simp
  have A1: "length gidsA = length ps" by (rule pre_state(1)[OF a3 a1])
  have A2: "length cs + 1 \<le> ngA" by (rule pre_state(2)[OF a3 a1])
  from resolve_group_veto[OF gl s v, of cs gidsA ngA] a4
  have "(gidsB, ngB) = (map (\<lambda>x. if x = g then ngA else x) gidsA, ngA + 1)"
    by (simp add: demote_map)
  with a5 have "resolve_loop ps cs post (map (\<lambda>x. if x = g then ngA else x) gidsA, ngA + 1)
     = Inr (gids', ng')" by simp
  from demoted_final[OF this] obtain f where
    f1: "ngA \<le> f" and f2: "f < ng'" and
    f3: "\<forall>i<length gidsA. gidsA ! i = g \<longrightarrow> gids' ! i = f" by blast
  have m: "\<forall>i\<in>set (members ps g). gids' ! i = f"
  proof
    fix i assume "i \<in> set (members ps g)"
    then have i: "i < length ps" "group_id (ps ! i) = g" by (simp_all add: members_iff)
    have "gidsA ! i = g" by (rule pre_state(3)[OF a3 a1 i])
    moreover from i(1) A1 have "i < length gidsA" by simp
    ultimately show "gids' ! i = f" using f3 by blast
  qed
  from f1 A2 have "length cs < f" by simp
  with f2 m have 1: "\<exists>f. length cs < f \<and> f < ng' \<and> (\<forall>i\<in>set (members ps g). gids' ! i = f)"
    by blast
  have 2: "\<forall>cs' gids ng. resolve_group ps cs' g (gids, ng) = Inr (demote gids g ng)"
    using resolve_group_veto[OF gl s v] by blast
  from 1 2 show ?thesis by (rule conjI)
qed

text \<open>Particle 4, created by muon capture: it and its secondary both move to group 7.\<close>

theorem process_veto_demotes_witness:
  "resolve_groups capture_particles capture_clusters = Inr ([0, 1, 2, 3, 7, 7], 8)
   \<and> process_veto (capture_particles ! 4)
   \<and> shape (capture_particles ! 4) = 0
   \<and> members capture_particles 4 = [4, 5]
   \<and> length capture_clusters < 7
   \<and> resolve_group capture_particles [] 4 ([0, 1, 2, 3, 4, 4], 7) = Inr ([0, 1, 2, 3, 7, 7], 8)"
proof -
  have run: "resolve_groups capture_particles capture_clusters = Inr ([0, 1, 2, 3, 7, 7], 8)"
    by code_simp
  have g: "4 \<in> set (map group_id capture_particles)" by code_simp
  have s: "shape (capture_particles ! 4) = 0 \<or> shape (capture_particles ! 4) = 4" by code_simp
  have v: "process_veto (capture_particles ! 4)" by code_simp
  have s0: "shape (capture_particles ! 4) = 0" by code_simp
  have m: "members capture_particles 4 = [4, 5]" by code_simp
  have l: "length capture_clusters < 7" by code_simp
  have d: "demote [0, 1, 2, 3, 4, 4] 4 7 = ([0, 1, 2, 3, 7, 7], 8)" by code_simp
  from process_veto_demotes[OF run g s v]
  have "resolve_group capture_particles [] 4 ([0, 1, 2, 3, 4, 4], 7)
        = Inr (demote [0, 1, 2, 3, 4, 4] 4 7)" by blast
  with run v s0 m l d show ?thesis by simp
qed

text \<open>
  C1 (time-ordering veto). For a declared group \<open>g\<close> whose primary has shape shower (0)
  or low-energy (4), is not vetoed by process or PDG code and has a non-empty cluster:
  let \<open>m\<close> be the member with the minimal first step time, the lowest particle id among
  those that tie. If \<open>m\<close> is not \<open>g\<close>, all members end with one common fresh group id; if
  \<open>m\<close> is \<open>g\<close>, all members keep group id \<open>g\<close>. The resolution never raises on a tie: the
  only error it can raise at all is an index out of range.
\<close>

theorem time_ordering_veto:
  assumes g: "g \<in> set (map group_id ps)"
    and s: "shape (ps ! g) = 0 \<or> shape (ps ! g) = 4"
    and v: "\<not> process_veto (ps ! g)"
    and gc: "g < length cs" and ne: "cs ! g \<noteq> []"
    and m: "earliest_member ps g m"
  shows "(\<forall>e. resolve_groups ps cs = Inl e \<longrightarrow> e = IndexError)
       \<and> (\<forall>gids' ng'. resolve_groups ps cs = Inr (gids', ng') \<longrightarrow>
            (m \<noteq> g \<longrightarrow>
               (\<exists>f. length cs < f \<and> f < ng' \<and> (\<forall>i\<in>set (members ps g). gids' ! i = f)))
          \<and> (m = g \<longrightarrow> (\<forall>i\<in>set (members ps g). gids' ! i = g)))"
proof -
  have 1: "\<forall>e. resolve_groups ps cs = Inl e \<longrightarrow> e = IndexError"
    using resolve_groups_error by blast
  have 2: "\<forall>gids' ng'. resolve_groups ps cs = Inr (gids', ng') \<longrightarrow>
            (m \<noteq> g \<longrightarrow>
               (\<exists>f. length cs < f \<and> f < ng' \<and> (\<forall>i\<in>set (members ps g). gids' ! i = f)))
          \<and> (m = g \<longrightarrow> (\<forall>i\<in>set (members ps g). gids' ! i = g))"
  proof (intro allI impI)
    fix gids' ng'
    assume run: "resolve_groups ps cs = Inr (gids', ng')"
    show "(m \<noteq> g \<longrightarrow>
               (\<exists>f. length cs < f \<and> f < ng' \<and> (\<forall>i\<in>set (members ps g). gids' ! i = f)))
          \<and> (m = g \<longrightarrow> (\<forall>i\<in>set (members ps g). gids' ! i = g))"
      by (rule time_ordering_run[OF run g s v gc ne m])
  qed
  from 1 2 show ?thesis by (rule conjI)
qed

text \<open>
  Times 5, 2, 8: particle 1 is earliest, the three showers move to the fresh group 4.
  Times 2, 2, 8: particles 0 and 1 tie, particle 0 counts as earliest, the group stays 0.
\<close>

theorem time_ordering_veto_witness:
  "earliest_member late_primary_particles 0 1
   \<and> resolve_groups late_primary_particles shower_clusters = Inr ([4, 4, 4], 5)
   \<and> earliest_member tie_particles 0 0
   \<and> resolve_groups tie_particles shower_clusters = Inr ([0, 0, 0], 4)
   \<and> members tie_particles 0 = [0, 1, 2]"
proof -
  have g1: "0 \<in> set (map group_id late_primary_particles)" by code_simp
  have s1: "shape (late_primary_particles ! 0) = 0 \<or> shape (late_primary_particles ! 0) = 4"
    by code_simp
  have v1: "\<not> process_veto (late_primary_particles ! 0)" by code_simp
  have gc: "0 < length shower_clusters" by code_simp
  have ne: "shower_clusters ! 0 \<noteq> []" by code_simp
  have m1: "earliest_member late_primary_particles 0 1" by code_simp
  have r1: "resolve_groups late_primary_particles shower_clusters = Inr ([4, 4, 4], 5)"
    by code_simp
  have g2: "0 \<in> set (map group_id tie_particles)" by code_simp
  have s2: "shape (tie_particles ! 0) = 0 \<or> shape (tie_particles ! 0) = 4" by code_simp
  have v2: "\<not> process_veto (tie_particles ! 0)" by code_simp
  have m2: "earliest_member tie_particles 0 0" by code_simp
  have r2: "resolve_groups tie_particles shower_clusters = Inr ([0, 0, 0], 4)" by code_simp
  have ms: "members tie_particles 0 = [0, 1, 2]" by code_simp
  note t1 = time_ordering_veto[OF g1 s1 v1 gc ne m1]
  note t2 = time_ordering_veto[OF g2 s2 v2 gc ne m2]
  from t1 t2 m1 r1 m2 r2 ms show ?thesis by simp
qed

text \<open>
  C3 (fresh group ids). The counter starts at the number of clusters plus one, so every
  id it hands out is above the number of clusters. In an event of the data model, with
  one cluster per particle record (at most one particle more than clusters is enough),
  every freshly minted group id is strictly greater than every declared group id of the
  event, the demoted groups receive fresh ids that increase with the declared group id
  (so distinct groups receive distinct ids, and the members of one group the same id),
  and every value of the counter used during the call is the id of some demoted group:
  the counter moves by one per demoted group.
\<close>

theorem fresh_ids_above_declared:
  assumes run: "resolve_groups ps cs = Inr (gids', ng')"
  shows "(\<forall>i<length ps. gids' ! i \<noteq> group_id (ps ! i) \<longrightarrow> length cs < gids' ! i \<and> gids' ! i < ng')
    \<and> (length ps \<le> length cs + 1 \<longrightarrow>
         (\<forall>i<length ps. \<forall>j<length ps. gids' ! i \<noteq> group_id (ps ! i) \<longrightarrow>
              group_id (ps ! j) < gids' ! i)
       \<and> (\<forall>i<length ps. \<forall>j<length ps.
              gids' ! i \<noteq> group_id (ps ! i) \<and> gids' ! j \<noteq> group_id (ps ! j)
              \<and> group_id (ps ! i) < group_id (ps ! j) \<longrightarrow> gids' ! i < gids' ! j)
       \<and> (\<forall>i<length ps. \<forall>j<length ps.
              group_id (ps ! i) = group_id (ps ! j) \<longrightarrow> gids' ! i = gids' ! j)
       \<and> (\<forall>f. length cs < f \<and> f < ng' \<longrightarrow>
              (\<exists>i<length ps. gids' ! i = f \<and> group_id (ps ! i) \<noteq> f)))"
proof -
  let ?us = "np_unique (map group_id ps)"
  let ?g0 = "map group_id ps"
  from run have loop: "resolve_loop ps cs ?us (?g0, length cs + 1) = Inr (gids', ng')"
    by (simp add: resolve_groups_def)
  have rng: "length cs < gids' ! i \<and> gids' ! i < ng'"
    if "i < length ps" "gids' ! i \<noteq> group_id (ps ! i)" for i
  proof -
    from that(1) have "i < length ?g0" by simp
    from resolve_loop_range[OF loop this] that show ?thesis by simp
  qed
  have declared: "group_id (ps ! j) < length ps" if "j < length ps" for j
  proof -
    from that have "group_id (ps ! j) \<in> set ?us" by (simp add: np_unique_props)
    from resolve_loop_bound[OF loop this] show ?thesis .
  qed
  have 1: "\<forall>i<length ps. gids' ! i \<noteq> group_id (ps ! i) \<longrightarrow> length cs < gids' ! i \<and> gids' ! i < ng'"
    using rng by blast
  have 2: "(\<forall>i<length ps. \<forall>j<length ps. gids' ! i \<noteq> group_id (ps ! i) \<longrightarrow>
              group_id (ps ! j) < gids' ! i)
       \<and> (\<forall>i<length ps. \<forall>j<length ps.
              gids' ! i \<noteq> group_id (ps ! i) \<and> gids' ! j \<noteq> group_id (ps ! j)
              \<and> group_id (ps ! i) < group_id (ps ! j) \<longrightarrow> gids' ! i < gids' ! j)
       \<and> (\<forall>i<length ps. \<forall>j<length ps.
              group_id (ps ! i) = group_id (ps ! j) \<longrightarrow> gids' ! i = gids' ! j)
       \<and> (\<forall>f. length cs < f \<and> f < ng' \<longrightarrow>
              (\<exists>i<length ps. gids' ! i = f \<and> group_id (ps ! i) \<noteq> f))"
    if wf: "length ps \<le> length cs + 1"
  proof (intro conjI allI impI)
    fix i j assume i: "i < length ps" and j: "j < length ps"
      and c: "gids' ! i \<noteq> group_id (ps ! i)"
    from declared[OF j] wf have "group_id (ps ! j) \<le> length cs" by simp
    with rng[OF i c] show "group_id (ps ! j) < gids' ! i" by simp
  next
    fix i j assume i: "i < length ps" and j: "j < length ps"
      and c: "gids' ! i \<noteq> group_id (ps ! i) \<and> gids' ! j \<noteq> group_id (ps ! j)
              \<and> group_id (ps ! i) < group_id (ps ! j)"
    have b: "\<forall>u\<in>set ?us. u < length cs + 1"
    proof
      fix u assume "u \<in> set ?us"
      from resolve_loop_bound[OF loop this] wf show "u < length cs + 1" by simp
    qed
    from i j have i0: "i < length ?g0" and j0: "j < length ?g0" by simp_all
    show "gids' ! i < gids' ! j"
      by (rule resolve_loop_order[OF loop np_unique_props(2) np_unique_props(1) b i0 j0])
         (use c i j in simp_all)
  next
    fix i j assume i: "i < length ps" and j: "j < length ps"
      and c: "group_id (ps ! i) = group_id (ps ! j)"
    from i j have i0: "i < length ?g0" and j0: "j < length ?g0" by simp_all
    show "gids' ! i = gids' ! j"
      by (rule resolve_loop_equal[OF loop i0 j0]) (use c i j in simp)
  next
    fix f assume f: "length cs < f \<and> f < ng'"
    have b: "\<forall>u\<in>set ?us. u < length cs + 1"
    proof
      fix u assume "u \<in> set ?us"
      from resolve_loop_bound[OF loop this] wf show "u < length cs + 1" by simp
    qed
    have sub: "set ?us \<subseteq> set ?g0" by (simp add: np_unique_props)
    from f have f1: "length cs + 1 \<le> f" and f2: "f < ng'" by simp_all
    from resolve_loop_onto[OF loop np_unique_props(1) sub b f1 f2]
    obtain i where "i < length ?g0" "gids' ! i = f" "?g0 ! i \<noteq> gids' ! i" by blast
    then have "i < length ps \<and> gids' ! i = f \<and> group_id (ps ! i) \<noteq> f" by auto
    then show "\<exists>i<length ps. gids' ! i = f \<and> group_id (ps ! i) \<noteq> f" by blast
  qed
  from 1 2 show ?thesis by blast
qed

theorem fresh_ids_above_declared_witness:
  "resolve_groups two_demoted_particles two_demoted_clusters = Inr ([5, 5, 6, 3], 7)
   \<and> length two_demoted_particles \<le> length two_demoted_clusters + 1
   \<and> map group_id two_demoted_particles = [0, 0, 2, 3]
   \<and> length two_demoted_clusters = 4"
proof -
  have run: "resolve_groups two_demoted_particles two_demoted_clusters = Inr ([5, 5, 6, 3], 7)"
    by code_simp
  have wf: "length two_demoted_particles \<le> length two_demoted_clusters + 1" by code_simp
  have g: "map group_id two_demoted_particles = [0, 0, 2, 3]" by code_simp
  have l: "length two_demoted_clusters = 4" by code_simp
  from fresh_ids_above_declared[OF run] run wf g l show ?thesis by simp
qed

text \<open>
  C5 (empty events). The event with no particle and no cluster, and the event of eight
  tracks whose clusters are all empty, do not yield an empty voxel array and an empty
  feature array: \<open>parse_cluster3d_full\<close> raises the error of \<open>np.concatenate\<close> on an
  empty list of blocks.
\<close>

theorem empty_event_failing_input:
  "parse_cluster3d_full [] [] = Inl ValueError
   \<and> parse_cluster3d_full track_particles empty_clusters = Inl ValueError
   \<and> length track_particles = 8 \<and> length empty_clusters = 8
   \<and> concat empty_clusters = []"
  by code_simp

text \<open>
  The same holds of every event without a particle or without a voxel, and the arrays
  of a call that returns are never empty.
\<close>

theorem empty_event_raises:
  "((ps = [] \<or> (\<forall>c\<in>set cs. c = [])) \<longrightarrow> (\<exists>e. parse_cluster3d_full ps cs = Inl e))
   \<and> (\<forall>vs fs. parse_cluster3d_full ps cs = Inr (vs, fs) \<longrightarrow> vs \<noteq> [] \<and> fs \<noteq> [])"
proof (intro conjI allI impI)
  assume e: "ps = [] \<or> (\<forall>c\<in>set cs. c = [])"
  show "\<exists>e. parse_cluster3d_full ps cs = Inl e"
  proof (cases "parse_cluster3d_full ps cs")
    case (Inl a)
    then show ?thesis by blast
  next
    case (Inr r)
    obtain vs fs where "r = (vs, fs)" by (cases r)
    with Inr parse_cluster3d_full_returns[of ps cs vs fs] e show ?thesis by blast
  qed
next
  fix vs fs assume "parse_cluster3d_full ps cs = Inr (vs, fs)"
  from parse_cluster3d_full_returns[OF this] show "vs \<noteq> []" "fs \<noteq> []" by simp_all
qed

theorem empty_event_raises_witness:
  "concat empty_clusters = []
   \<and> parse_cluster3d_full track_particles empty_clusters = Inl ValueError
   \<and> parse_cluster3d_full late_primary_particles shower_clusters
       = Inr ([(0, 0, 0), (1, 0, 0)],
              [\<lparr>fvalue = 1, cluster_id = 0, fgroup_id = 4, sem_type = 0\<rparr>,
               \<lparr>fvalue = 1, cluster_id = 1, fgroup_id = 4, sem_type = 0\<rparr>])"
proof -
  have a: "\<forall>c\<in>set empty_clusters. c = []" by code_simp
  have b: "parse_cluster3d_full track_particles empty_clusters = Inl ValueError" by code_simp
  have c: "parse_cluster3d_full late_primary_particles shower_clusters
       = Inr ([(0, 0, 0), (1, 0, 0)],
              [\<lparr>fvalue = 1, cluster_id = 0, fgroup_id = 4, sem_type = 0\<rparr>,
               \<lparr>fvalue = 1, cluster_id = 1, fgroup_id = 4, sem_type = 0\<rparr>])" by code_simp
  have d: "concat empty_clusters = []" by code_simp
  from empty_event_raises[of track_particles empty_clusters]
       empty_event_raises[of late_primary_particles shower_clusters] a b c d
  show ?thesis by simp
qed

section \<open>Properties of the class \<open>Particle\<close>\<close>

text \<open>
  C9 (depositions sum). After the depositions 1.5 and 2.5 are assigned at construction,
  together with two voxel indices, reading \<open>depositions_sum\<close> returns 2, the number of
  voxels, and not 4, the sum of the depositions, which the setter has stored in
  \<open>_depositions_sum\<close>: the getter returns \<open>self._size\<close>.
\<close>

theorem depositions_sum_failing_input:
  "map_sum (\<lambda>e. e) depositions_sum (init_Particle deposit_args) = Inr (Some 2)
   \<and> map_sum (\<lambda>e. e) p_depositions_sum (init_Particle deposit_args) = Inr (Some 4)
   \<and> sum_list (arg_depositions deposit_args) = 4
   \<and> length (arg_index deposit_args) = 2"
  by code_simp

text \<open>For every object, the getter after the depositions setter returns the size.\<close>

theorem depositions_sum_returns_size:
  "depositions_sum (set_depositions d p) = p_size p
   \<and> p_depositions_sum (set_depositions d p) = Some (sum_list d)"
  by (simp add: depositions_sum_def set_depositions_def)

text \<open>
  C10 (pid from scores). For every object and every non-empty scores array \<open>s\<close>, the
  setter of \<open>pid_scores\<close> stores \<open>s\<close> and sets \<open>pid\<close> to \<open>argmax(s)\<close>, the first
  position of the maximum, also when the first score is negative. After construction
  \<open>pid\<close> is the \<open>pid\<close> argument when all scores are negative, and \<open>argmax(s)\<close>
  otherwise. (On an empty array the setter raises, as \<open>argmax\<close> does.)
\<close>

theorem pid_scores_setter_argmax:
  assumes s: "s \<noteq> []"
  shows "\<exists>k. np_argmax s = Inr k
     \<and> k < length s \<and> (\<forall>j<length s. s ! j \<le> s ! k) \<and> (\<forall>j<k. s ! j < s ! k)
     \<and> set_pid_scores s p = Inr (p\<lparr>p_pid_scores := Some s, pid := Some (int k)\<rparr>)
     \<and> (\<forall>a p'. arg_pid_scores a = s \<and> init_Particle a = Inr p' \<longrightarrow>
           pid p' = (if np_all_negative s then Some (arg_pid a) else Some (int k)))"
proof -
  from np_argmax_nonempty[OF s] obtain k where k: "np_argmax s = Inr k" by blast
  note sp = np_argmax_spec[OF k]
  have 1: "set_pid_scores s p = Inr (p\<lparr>p_pid_scores := Some s, pid := Some (int k)\<rparr>)"
    by (rule set_pid_scores_result[OF k])
  have 2: "\<forall>a p'. arg_pid_scores a = s \<and> init_Particle a = Inr p' \<longrightarrow>
           pid p' = (if np_all_negative s then Some (arg_pid a) else Some (int k))"
    using init_Particle_pid k by blast
  from k sp 1 2 show ?thesis by blast
qed

text \<open>
  With the default scores, all \<open>-1\<close>, the setter alone leaves \<open>pid = 0\<close>; the
  constructor ends with \<open>pid = -1\<close>, its \<open>pid\<close> argument.
\<close>

theorem pid_scores_setter_argmax_witness:
  "map_sum (\<lambda>e. e) pid (set_pid_scores [- 1, - 1, - 1, - 1, - 1] unset_Particle) = Inr (Some 0)
   \<and> np_argmax [- 1, - 1, - 1, - 1, - 1] = Inr 0
   \<and> map_sum (\<lambda>e. e) pid (init_Particle default_args) = Inr (Some (- 1))
   \<and> arg_pid default_args = - 1"
proof -
  have s: "[- 1, - 1, - 1, - 1, - 1] \<noteq> ([] :: real list)" by simp
  have a: "map_sum (\<lambda>e. e) pid (set_pid_scores [- 1, - 1, - 1, - 1, - 1] unset_Particle)
           = Inr (Some 0)" by code_simp
  have b: "np_argmax [- 1, - 1, - 1, - 1, - 1] = Inr 0" by code_simp
  have c: "map_sum (\<lambda>e. e) pid (init_Particle default_args) = Inr (Some (- 1))" by code_simp
  have d: "arg_pid default_args = - 1" by code_simp
  from pid_scores_setter_argmax[OF s, of unset_Particle] a b c d show ?thesis by simp
qed

section \<open>Properties of the sparse tensor parsers\<close>

text \<open>
  C7 (sorted, duplicate-free fragment labels). Whenever \<open>parse_sparse3d_fragment\<close>
  returns, its coordinate array is sorted in the order of \<open>np.lexsort\<close> (by z, then y,
  then x) and has no duplicate coordinate, there is one value row per coordinate, and
  the value kept for a coordinate is that of its first occurrence in the sorted input,
  which the stable sort makes its first occurrence in the input; every retained value
  is below 4, and every coordinate whose first occurrence is below 4 is retained.
\<close>

theorem sparse3d_fragment_sorted_unique:
  assumes run: "parse_sparse3d_fragment data = Inr (vs, ds)"
  shows "sorted (map lexkey vs) \<and> distinct vs \<and> length ds = length vs
     \<and> (\<exists>t. data = [t]
          \<and> (\<forall>k<length vs. \<exists>x. ds ! k = [x] \<and> x < 4
                \<and> first_row (take_rows (voxels3d t) (np_lexsort (map fst (voxels3d t)))) (vs ! k)
                    = Some (vs ! k, x)
                \<and> first_row (voxels3d t) (vs ! k) = Some (vs ! k, x))
          \<and> (\<forall>v x. first_row (voxels3d t) v = Some (v, x) \<and> x < 4 \<longrightarrow> v \<in> set vs))"
proof -
  from parse_sparse3d_fragment_single[OF run] obtain t where t: "data = [t]" by blast
  define S0 where "S0 = sort_key (lexkey \<circ> fst) (voxels3d t)"
  define x0 where "x0 = (\<lambda>u. snd (S0 ! first_index (map fst S0) u))"
  define us where "us = sort (remdups (map fst S0))"
  define V where "V = filter (\<lambda>u. x0 u < 4) us"
  have c: "parse_sparse3d_fragment [t] = Inr (sort_key lexkey V, map (\<lambda>u. [x0 u]) (sort_key lexkey V))"
    unfolding V_def us_def x0_def S0_def by (rule parse_sparse3d_fragment_char)
  from run t have r: "parse_sparse3d_fragment [t] = Inr (vs, ds)" by simp
  have "Inr (vs, ds) = (Inr (sort_key lexkey V, map (\<lambda>u. [x0 u]) (sort_key lexkey V))
      :: error + voxel list \<times> real list list)"
    by (rule trans[OF sym[OF r] c])
  then have vd: "vs = sort_key lexkey V \<and> ds = map (\<lambda>u. [x0 u]) (sort_key lexkey V)"
    by (simp only: sum.inject prod.inject)
  from vd have vs: "vs = sort_key lexkey V" by (rule conjunct1)
  from vd have ds: "ds = map (\<lambda>u. [x0 u]) vs" by (simp only: vs conjunct2)
  have 1: "sorted (map lexkey vs)" unfolding vs by (rule sorted_sort_key)
  have 2: "distinct vs" unfolding vs by (simp add: V_def us_def)
  have 3: "length ds = length vs" unfolding ds by simp
  have sorted_rows: "take_rows (voxels3d t) (np_lexsort (map fst (voxels3d t))) = S0"
    unfolding S0_def by (rule take_rows_sorted_rows)
  have stable: "first_row S0 v = first_row (voxels3d t) v" for v
    unfolding S0_def by (rule first_row_sorted)
  have us_set: "set us = set (map fst S0)" by (simp add: us_def)
  have mem: "v \<in> set vs \<longleftrightarrow> v \<in> set (map fst S0) \<and> x0 v < 4" for v
    unfolding vs by (simp add: V_def us_def)
  have 4: "\<forall>k<length vs. \<exists>x. ds ! k = [x] \<and> x < 4
                \<and> first_row (take_rows (voxels3d t) (np_lexsort (map fst (voxels3d t)))) (vs ! k)
                    = Some (vs ! k, x)
                \<and> first_row (voxels3d t) (vs ! k) = Some (vs ! k, x)"
  proof (intro allI impI)
    fix k assume k: "k < length vs"
    then have "vs ! k \<in> set vs" by simp
    with mem have a: "vs ! k \<in> set (map fst S0)" and b: "x0 (vs ! k) < 4" by blast+
    from first_row_first_index[OF a] have f: "first_row S0 (vs ! k) = Some (vs ! k, x0 (vs ! k))"
      by (simp add: x0_def)
    from k ds have d: "ds ! k = [x0 (vs ! k)]" by simp
    from d b f stable[of "vs ! k"] sorted_rows
    show "\<exists>x. ds ! k = [x] \<and> x < 4
                \<and> first_row (take_rows (voxels3d t) (np_lexsort (map fst (voxels3d t)))) (vs ! k)
                    = Some (vs ! k, x)
                \<and> first_row (voxels3d t) (vs ! k) = Some (vs ! k, x)"
      by simp
  qed
  have 5: "\<forall>v x. first_row (voxels3d t) v = Some (v, x) \<and> x < 4 \<longrightarrow> v \<in> set vs"
  proof (intro allI impI)
    fix v x assume a: "first_row (voxels3d t) v = Some (v, x) \<and> x < 4"
    with stable[of v] have s: "first_row S0 v = Some (v, x)" by simp
    from first_row_Some_fst[OF s] have m: "v \<in> set (map fst S0)" by simp
    from first_row_first_index[OF m] s have "x0 v = x" by (simp add: x0_def)
    with a m mem show "v \<in> set vs" by simp
  qed
  from t 1 2 3 4 5 show ?thesis by blast
qed

text \<open>
  Coordinate (1, 1, 1) occurs with values 1 and 5 and keeps 1; coordinate (2, 0, 0) has
  value 5 and is dropped.
\<close>

theorem sparse3d_fragment_sorted_unique_witness:
  "parse_sparse3d_fragment [semantic_tensor]
     = Inr ([(0, 0, 0), (0, 1, 0), (1, 1, 1), (0, 0, 2)], [[0], [3], [1], [2]])
   \<and> map lexkey [(0, 0, 0), (0, 1, 0), (1, 1, 1), (0, 0, 2)]
     = [(0, 0, 0), (0, 1, 0), (1, 1, 1), (2, 0, 0)]
   \<and> first_row (voxels3d semantic_tensor) (1, 1, 1) = Some ((1, 1, 1), 1)
   \<and> first_row (voxels3d semantic_tensor) (2, 0, 0) = Some ((2, 0, 0), 5)"
proof -
  have run: "parse_sparse3d_fragment [semantic_tensor]
     = Inr ([(0, 0, 0), (0, 1, 0), (1, 1, 1), (0, 0, 2)], [[0], [3], [1], [2]])" by code_simp
  have k: "map lexkey [(0, 0, 0), (0, 1, 0), (1, 1, 1), (0, 0, 2)]
     = [(0, 0, 0), (0, 1, 0), (1, 1, 1), (2, 0, 0)]" by code_simp
  have a: "first_row (voxels3d semantic_tensor) (1, 1, 1) = Some ((1, 1, 1), 1)" by code_simp
  have b: "first_row (voxels3d semantic_tensor) (2, 0, 0) = Some ((2, 0, 0), 5)" by code_simp
  from sparse3d_fragment_sorted_unique[OF run] run k a b show ?thesis by simp
qed

text \<open>
  C6 (semantic type from the image). Whenever \<open>parse_cluster3d_clean_full\<close> returns,
  its rows are the coordinates of the cluster tensor that are present in the image, each
  once, in the order of \<open>np.lexsort\<close>; the row count is the number of these
  coordinates; every row carries the value, cluster id and group id of a cluster row at
  its coordinate, and its semantic type is the value the image tensor carries at that
  coordinate, whatever the semantic type of the cluster row. (The assignment of the
  column raises when the image and the filtered cluster rows differ in number.)
\<close>

theorem clean_full_semantics_from_image:
  assumes run: "parse_cluster3d_clean_full ps cs t = Inr (vs, fs)"
  shows "length fs = length vs \<and> sorted (map lexkey vs) \<and> distinct vs
     \<and> (\<exists>gv gd. parse_cluster3d_full ps cs = Inr (gv, gd)
          \<and> set vs = set gv \<inter> fst ` set (voxels3d t)
          \<and> length vs = card (set gv \<inter> fst ` set (voxels3d t))
          \<and> (\<forall>k<length vs. \<exists>f0. (vs ! k, f0) \<in> set (zip gv gd)
                 \<and> fs ! k = f0\<lparr>sem_type := sem_type (fs ! k)\<rparr>))
     \<and> (\<forall>k<length vs. first_row (voxels3d t) (vs ! k) = Some (vs ! k, sem_type (fs ! k)))"
proof -
  have "\<exists>gv gd. parse_cluster3d_full ps cs = Inr (gv, gd)"
  proof (cases "parse_cluster3d_full ps cs")
    case (Inl e)
    then have "parse_cluster3d_clean_full ps cs t = Inl e"
      by (simp add: parse_cluster3d_clean_full_def)
    with run show ?thesis by simp
  next
    case (Inr p)
    then show ?thesis by (cases p) simp
  qed
  then obtain gv gd where full0: "parse_cluster3d_full ps cs = Inr (gv, gd)" by blast
  from parse_cluster3d_full_rows[OF full0] obtain G where
    gv: "gv = map fst G" and gd: "gd = map snd G" by blast
  from full0 gv gd have full: "parse_cluster3d_full ps cs = Inr (map fst G, map snd G)" by simp
  define SG where "SG = sort_key (lexkey \<circ> fst) G"
  define D where "D = nths SG {i. map fst SG ! i \<notin> set (take i (map fst SG))}"
  define SI where "SI = sort_key (lexkey \<circ> fst) (voxels3d t)"
  define E where "E = filter (\<lambda>r. fst r \<in> set (map fst SI)) D"
  have c: "parse_cluster3d_clean_full ps cs t =
           (case assign_last_column (map snd E) (map snd SI) of
              Inl e \<Rightarrow> Inl e
            | Inr fs \<Rightarrow> Inr (map fst E, fs))"
    unfolding E_def D_def SI_def SG_def by (rule parse_cluster3d_clean_full_char[OF full])
  from run c obtain fs1 where a: "assign_last_column (map snd E) (map snd SI) = Inr fs1"
    and r: "Inr (vs, fs) = (Inr (map fst E, fs1) :: error + voxel list \<times> feature list)"
    by (cases "assign_last_column (map snd E) (map snd SI)") simp_all
  from r have vs: "vs = map fst E" and fs1: "fs1 = fs" by simp_all
  note a = a[unfolded fs1]
  have fD: "map fst D = nths (map fst SG) {i. map fst SG ! i \<notin> set (take i (map fst SG))}"
    by (simp add: D_def nths_map)
  have dD: "distinct (map fst D)" unfolding fD by (rule first_occurrences_distinct)
  have setD: "set (map fst D) = set gv"
    unfolding fD first_occurrences_set by (simp add: SG_def gv)
  have "sorted (map (lexkey \<circ> fst) SG)" unfolding SG_def by (rule sorted_sort_key)
  then have "sorted (map lexkey (map fst SG))" by (simp add: o_def)
  then have "sorted (nths (map lexkey (map fst SG)) {i. map fst SG ! i \<notin> set (take i (map fst SG))})"
    by (rule sorted_nths)
  then have sD: "sorted (map lexkey (map fst D))" by (simp only: fD nths_map)
  have fE: "map fst E = filter (\<lambda>v. v \<in> set (map fst SI)) (map fst D)"
    by (simp add: E_def filter_map o_def)
  have dE: "distinct vs" unfolding vs fE using dD by (rule distinct_filter)
  have sE: "sorted (map lexkey vs)" unfolding vs fE using sD by (rule sorted_filter)
  have setI: "set (map fst SI) = fst ` set (voxels3d t)" by (simp add: SI_def)
  have setE: "set vs = set gv \<inter> fst ` set (voxels3d t)"
    unfolding vs fE using setD setI by auto
  have card: "length vs = card (set gv \<inter> fst ` set (voxels3d t))"
    using distinct_card[OF dE] setE by simp
  have lenE: "length E = length vs" by (simp add: vs)
  have rows: "(vs ! k, snd (E ! k)) \<in> set (zip gv gd)" if "k < length vs" for k
  proof -
    from that lenE have k: "k < length E" by simp
    then have "E ! k \<in> set E" by simp
    then have "E ! k \<in> set D" by (simp add: E_def)
    moreover have "set D \<subseteq> set SG" unfolding D_def by (rule set_nths_subset)
    ultimately have "E ! k \<in> set SG" by (rule set_mp[rotated])
    then have "E ! k \<in> set G" by (simp add: SG_def)
    moreover have "zip gv gd = G" by (simp add: gv gd zip_map_fst_snd)
    moreover from k have "vs ! k = fst (E ! k)" by (simp add: vs)
    ultimately show ?thesis by simp
  qed
  have sSI: "sorted (map lexkey (map fst SI))"
  proof -
    have "sorted (map (lexkey \<circ> fst) SI)" unfolding SI_def by (rule sorted_sort_key)
    then show ?thesis by (simp add: o_def)
  qed
  have stable: "first_row SI v = first_row (voxels3d t) v" for v
    unfolding SI_def by (rule first_row_sorted)
  from assign_last_column_cases[OF a] show ?thesis
  proof
    assume eq: "length (map snd SI) = length (map snd E) \<and>
      fs = map (\<lambda>(f, x). f\<lparr>sem_type := x\<rparr>) (zip (map snd E) (map snd SI))"
    then have len: "length SI = length vs" and
      fs: "fs = map (\<lambda>(f, x). f\<lparr>sem_type := x\<rparr>) (zip (map snd E) (map snd SI))"
      by (simp_all add: lenE)
    have lfs: "length fs = length vs" by (simp add: fs len lenE)
    have sub: "set vs \<subseteq> set (map fst SI)" using setE setI by simp
    have "card (set (map fst SI)) \<le> length (map fst SI)" by (rule card_length)
    moreover have "card (set vs) \<le> card (set (map fst SI))"
      by (rule card_mono[OF _ sub]) simp
    moreover have "card (set vs) = length vs" by (rule distinct_card[OF dE])
    ultimately have cI: "card (set (map fst SI)) = length (map fst SI)"
      and cE: "card (set vs) = card (set (map fst SI))" using len by simp_all
    from cI have dI: "distinct (map fst SI)" by (rule card_distinct)
    have "set vs = set (map fst SI)" by (rule card_subset_eq[OF _ sub cE]) simp
    from lexkey_sorted_unique[OF sE dE sSI dI this] have al: "vs = map fst SI" .
    have sem: "sem_type (fs ! k) = snd (SI ! k) \<and> fs ! k = (snd (E ! k))\<lparr>sem_type := snd (SI ! k)\<rparr>"
      if "k < length vs" for k
      using that len lenE by (simp add: fs)
    have 4: "\<forall>k<length vs. \<exists>f0. (vs ! k, f0) \<in> set (zip gv gd)
                 \<and> fs ! k = f0\<lparr>sem_type := sem_type (fs ! k)\<rparr>"
    proof (intro allI impI)
      fix k assume k: "k < length vs"
      from sem[OF k] have "fs ! k = (snd (E ! k))\<lparr>sem_type := sem_type (fs ! k)\<rparr>" by simp
      with rows[OF k] show "\<exists>f0. (vs ! k, f0) \<in> set (zip gv gd)
                 \<and> fs ! k = f0\<lparr>sem_type := sem_type (fs ! k)\<rparr>" by blast
    qed
    have 5: "\<forall>k<length vs. first_row (voxels3d t) (vs ! k) = Some (vs ! k, sem_type (fs ! k))"
    proof (intro allI impI)
      fix k assume k: "k < length vs"
      with len have kI: "k < length SI" by simp
      from al kI have v: "vs ! k = fst (SI ! k)" by simp
      from first_row_distinct[OF dI kI] have "first_row SI (fst (SI ! k)) = Some (SI ! k)" .
      with stable[of "fst (SI ! k)"] have "first_row (voxels3d t) (vs ! k) = Some (SI ! k)"
        by (simp add: v)
      moreover have "SI ! k = (vs ! k, sem_type (fs ! k))"
        using v sem[OF k] by (simp add: prod_eq_iff)
      ultimately show "first_row (voxels3d t) (vs ! k) = Some (vs ! k, sem_type (fs ! k))" by simp
    qed
    have ex: "\<exists>gv gd. parse_cluster3d_full ps cs = Inr (gv, gd)
          \<and> set vs = set gv \<inter> fst ` set (voxels3d t)
          \<and> length vs = card (set gv \<inter> fst ` set (voxels3d t))
          \<and> (\<forall>k<length vs. \<exists>f0. (vs ! k, f0) \<in> set (zip gv gd)
                 \<and> fs ! k = f0\<lparr>sem_type := sem_type (fs ! k)\<rparr>)"
      by (intro exI conjI) (rule full0 setE card 4)+
    show ?thesis by (intro conjI) (rule lfs sE dE ex 5)+
  next
    assume b: "length (map snd SI) \<noteq> length (map snd E) \<and> length (map snd SI) = 1 \<and>
      fs = map (\<lambda>f. f\<lparr>sem_type := map snd SI ! 0\<rparr>) (map snd E)"
    then have len: "length SI = 1" and ne: "length vs \<noteq> 1" and lfs: "length fs = length vs"
      by (simp_all add: lenE)
    have sub: "set vs \<subseteq> set (map fst SI)" using setE setI by simp
    have "card (set vs) \<le> card (set (map fst SI))" by (rule card_mono[OF _ sub]) simp
    moreover have "card (set (map fst SI)) \<le> length (map fst SI)" by (rule card_length)
    moreover have "card (set vs) = length vs" by (rule distinct_card[OF dE])
    ultimately have "length vs \<le> 1" using len by simp
    with ne have z: "length vs = 0" by arith
    have 4: "\<forall>k<length vs. \<exists>f0. (vs ! k, f0) \<in> set (zip gv gd)
                 \<and> fs ! k = f0\<lparr>sem_type := sem_type (fs ! k)\<rparr>"
      using z by simp
    have 5: "\<forall>k<length vs. first_row (voxels3d t) (vs ! k) = Some (vs ! k, sem_type (fs ! k))"
      using z by simp
    have ex: "\<exists>gv gd. parse_cluster3d_full ps cs = Inr (gv, gd)
          \<and> set vs = set gv \<inter> fst ` set (voxels3d t)
          \<and> length vs = card (set gv \<inter> fst ` set (voxels3d t))
          \<and> (\<forall>k<length vs. \<exists>f0. (vs ! k, f0) \<in> set (zip gv gd)
                 \<and> fs ! k = f0\<lparr>sem_type := sem_type (fs ! k)\<rparr>)"
      by (intro exI conjI) (rule full0 setE card 4)+
    show ?thesis by (intro conjI) (rule lfs sE dE ex 5)+
  qed
qed

text \<open>
  The shower voxel at (1, 0, 0) has semantic type 0 in the cluster tensor and gets the
  value 3 of the image. With an image of four coordinates the call raises.
\<close>

theorem clean_full_semantics_from_image_witness:
  "parse_cluster3d_clean_full clean_particles clean_clusters clean_image
     = Inr ([(1, 0, 0), (2, 0, 0), (0, 0, 1)],
            [\<lparr>fvalue = 2, cluster_id = 1, fgroup_id = 1, sem_type = 3\<rparr>,
             \<lparr>fvalue = 1, cluster_id = 0, fgroup_id = 0, sem_type = 4\<rparr>,
             \<lparr>fvalue = 1, cluster_id = 0, fgroup_id = 0, sem_type = 2\<rparr>])
   \<and> first_row (voxels3d clean_image) (1, 0, 0) = Some ((1, 0, 0), 3)
   \<and> real_of_int (shape (clean_particles ! 1)) = 0
   \<and> parse_cluster3d_clean_full clean_particles clean_clusters wide_image = Inl ValueError"
proof -
  have run: "parse_cluster3d_clean_full clean_particles clean_clusters clean_image
     = Inr ([(1, 0, 0), (2, 0, 0), (0, 0, 1)],
            [\<lparr>fvalue = 2, cluster_id = 1, fgroup_id = 1, sem_type = 3\<rparr>,
             \<lparr>fvalue = 1, cluster_id = 0, fgroup_id = 0, sem_type = 4\<rparr>,
             \<lparr>fvalue = 1, cluster_id = 0, fgroup_id = 0, sem_type = 2\<rparr>])" by code_simp
  have a: "first_row (voxels3d clean_image) (1, 0, 0) = Some ((1, 0, 0), 3)" by code_simp
  have b: "real_of_int (shape (clean_particles ! 1)) = 0" by code_simp
  have c: "parse_cluster3d_clean_full clean_particles clean_clusters wide_image = Inl ValueError"
    by code_simp
  from clean_full_semantics_from_image[OF run] run a b c show ?thesis by simp
qed

text \<open>
  C8 (neutrino flag). Let the interaction map be defined on exactly the resolved groups
  of the event. In the output of \<open>parse_cluster3d_full_extended2\<close> the interaction id of
  a row is that of its group, and the flag in the last column is 1 for exactly the rows
  whose interaction id is the interaction id of the interaction containing resolved
  group 0, whether or not group 0 has a voxel; if no particle is in resolved group 0,
  every flag is 0.
\<close>

theorem nu_flag_marks_group_zero_interaction:
  assumes run: "parse_cluster3d_full_extended2 imap ps cs = Inr (vs, rows)"
    and res: "resolve_groups ps cs = Inr (gids, ng)"
    and cover: "dom imap = set gids"
  shows "length rows = length vs
     \<and> (\<forall>k<length rows. Some (ninteraction_id (rows ! k)) = imap (ngroup_id (rows ! k))
           \<and> nu_id (rows ! k) =
               (if 0 \<in> set gids \<and> Some (ninteraction_id (rows ! k)) = imap 0 then 1 else 0))
     \<and> (0 \<notin> set gids \<longrightarrow> (\<forall>k<length rows. nu_id (rows ! k) = 0))"
proof -
  have "\<exists>gv gd. parse_cluster3d_full ps cs = Inr (gv, gd)"
  proof (cases "parse_cluster3d_full ps cs")
    case (Inl e)
    then have "parse_cluster3d_full_extended2 imap ps cs = Inl e"
      by (simp add: parse_cluster3d_full_extended2_def)
    with run show ?thesis by simp
  next
    case (Inr p)
    then show ?thesis by (cases p) simp
  qed
  then obtain gv feats where full: "parse_cluster3d_full ps cs = Inr (gv, feats)" by blast
  from parse_cluster3d_full_rows[OF full] have len: "length gv = length feats" by auto
  have "\<exists>iids. get_interaction_id imap ps feats = Inr iids"
  proof (cases "get_interaction_id imap ps feats")
    case (Inl e)
    then have "parse_cluster3d_full_extended2 imap ps cs = Inl e"
      by (simp add: parse_cluster3d_full_extended2_def full)
    with run show ?thesis by simp
  next
    case (Inr i)
    then show ?thesis by simp
  qed
  then obtain iids where gi: "get_interaction_id imap ps feats = Inr iids" by blast
  from get_interaction_id_result[OF gi]
  have iids: "iids = map (\<lambda>f. the (imap (fgroup_id f))) feats"
    and cov: "\<forall>f\<in>set feats. imap (fgroup_id f) \<noteq> None" by blast+
  define nus where "nus = get_nu_id imap ps feats iids"
  have li: "length iids = length feats" by (simp add: iids)
  have ln: "length nus = length feats" by (simp add: nus_def get_nu_id_length li)
  define mk :: "feature \<times> int \<times> int \<Rightarrow> feature_nu" where
    "mk = (\<lambda>(f, i, n). \<lparr>nvalue = fvalue f, ngroup_id = fgroup_id f,
                         ninteraction_id = i, nsem_type = sem_type f, nu_id = n\<rparr>)"
  have "parse_cluster3d_full_extended2 imap ps cs = Inr (gv, map mk (zip feats (zip iids nus)))"
    unfolding parse_cluster3d_full_extended2_def full
    by (simp add: gi Let_def nus_def[symmetric] li ln mk_def)
  with run have "Inr (vs, rows) = (Inr (gv, map mk (zip feats (zip iids nus)))
      :: error + voxel list \<times> feature_nu list)" by simp
  then have vs: "vs = gv" and rows: "rows = map mk (zip feats (zip iids nus))" by simp_all
  have lr: "length rows = length feats" by (simp add: rows li ln)
  have row: "rows ! k = \<lparr>nvalue = fvalue (feats ! k), ngroup_id = fgroup_id (feats ! k),
                ninteraction_id = iids ! k, nsem_type = sem_type (feats ! k), nu_id = nus ! k\<rparr>"
    if "k < length feats" for k
    using that by (simp add: rows li ln mk_def)
  have zero: "0 \<in> set gids \<longleftrightarrow> imap 0 \<noteq> None"
    using cover by (auto simp: dom_def)
  have 1: "length rows = length vs" by (simp add: lr vs len)
  have 2: "\<forall>k<length rows. Some (ninteraction_id (rows ! k)) = imap (ngroup_id (rows ! k))
           \<and> nu_id (rows ! k) =
               (if 0 \<in> set gids \<and> Some (ninteraction_id (rows ! k)) = imap 0 then 1 else 0)"
  proof (intro allI impI)
    fix k assume "k < length rows"
    with lr have k: "k < length feats" by simp
    from k cov have c: "imap (fgroup_id (feats ! k)) \<noteq> None" by (metis nth_mem)
    from k have i: "iids ! k = the (imap (fgroup_id (feats ! k)))" by (simp add: iids)
    from c i have a: "Some (iids ! k) = imap (fgroup_id (feats ! k))" by simp
    from k li have "k < length iids" by simp
    from get_nu_id_nth[OF this]
    have n: "nus ! k = (case imap 0 of None \<Rightarrow> 0 | Some nu \<Rightarrow> if iids ! k = nu then 1 else 0)"
      by (simp add: nus_def)
    have b: "nus ! k = (if 0 \<in> set gids \<and> Some (iids ! k) = imap 0 then 1 else 0)"
      unfolding n zero by (cases "imap 0") auto
    from a b show "Some (ninteraction_id (rows ! k)) = imap (ngroup_id (rows ! k))
           \<and> nu_id (rows ! k) =
               (if 0 \<in> set gids \<and> Some (ninteraction_id (rows ! k)) = imap 0 then 1 else 0)"
      by (simp add: row[OF k])
  qed
  have 3: "0 \<notin> set gids \<longrightarrow> (\<forall>k<length rows. nu_id (rows ! k) = 0)"
    using 2 by simp
  from 1 2 3 show ?thesis by (intro conjI)
qed

text \<open>
  Groups 0 and 1 share interaction 0: their voxels are flagged, those of group 2 are not.
  When the cluster of group 0 is empty, the voxel of group 1 is still flagged. In the
  cosmic-only event no voxel is flagged, although interaction 0 has a voxel.
\<close>

theorem nu_flag_marks_group_zero_interaction_witness:
  "map_sum (\<lambda>e. e) (map nu_id \<circ> snd)
      (parse_cluster3d_full_extended2 nu_interaction_map nu_particles nu_clusters) = Inr [1, 1, 0]
   \<and> map_sum (\<lambda>e. e) (map nu_id \<circ> snd)
      (parse_cluster3d_full_extended2 nu_interaction_map nu_particles cosmic_clusters) = Inr [1, 0]
   \<and> resolve_groups nu_particles cosmic_clusters = Inr ([0, 1, 2], 4)
   \<and> map_sum (\<lambda>e. e) (map nu_id \<circ> snd)
      (parse_cluster3d_full_extended2 cosmic_interaction_map cosmic_particles cosmic_clusters)
        = Inr [0, 0]
   \<and> resolve_groups cosmic_particles cosmic_clusters = Inr ([4, 1, 2], 5)"
proof -
  have r: "parse_cluster3d_full_extended2 nu_interaction_map nu_particles nu_clusters
     = Inr ([(0, 0, 0), (1, 0, 0), (2, 0, 0)],
       [\<lparr>nvalue = 1, ngroup_id = 0, ninteraction_id = 0, nsem_type = 1, nu_id = 1\<rparr>,
        \<lparr>nvalue = 1, ngroup_id = 1, ninteraction_id = 0, nsem_type = 1, nu_id = 1\<rparr>,
        \<lparr>nvalue = 1, ngroup_id = 2, ninteraction_id = 1, nsem_type = 1, nu_id = 0\<rparr>])"
    by code_simp
  have rg: "resolve_groups nu_particles nu_clusters = Inr ([0, 1, 2], 4)" by code_simp
  have e: "parse_cluster3d_full_extended2 nu_interaction_map nu_particles cosmic_clusters
     = Inr ([(1, 0, 0), (2, 0, 0)],
       [\<lparr>nvalue = 1, ngroup_id = 1, ninteraction_id = 0, nsem_type = 1, nu_id = 1\<rparr>,
        \<lparr>nvalue = 1, ngroup_id = 2, ninteraction_id = 1, nsem_type = 1, nu_id = 0\<rparr>])"
    by code_simp
  have eg: "resolve_groups nu_particles cosmic_clusters = Inr ([0, 1, 2], 4)" by code_simp
  have c: "parse_cluster3d_full_extended2 cosmic_interaction_map cosmic_particles cosmic_clusters
     = Inr ([(1, 0, 0), (2, 0, 0)],
       [\<lparr>nvalue = 1, ngroup_id = 1, ninteraction_id = 0, nsem_type = 1, nu_id = 0\<rparr>,
        \<lparr>nvalue = 1, ngroup_id = 2, ninteraction_id = 1, nsem_type = 1, nu_id = 0\<rparr>])"
    by code_simp
  have cg: "resolve_groups cosmic_particles cosmic_clusters = Inr ([4, 1, 2], 5)" by code_simp
  have d1: "dom nu_interaction_map = set [0, 1, 2]"
    by (auto simp: nu_interaction_map_def dom_def)
  have d2: "dom cosmic_interaction_map = set [4, 1, 2]"
    by (auto simp: cosmic_interaction_map_def dom_def)
  note t1 = nu_flag_marks_group_zero_interaction[OF r rg d1]
  note t2 = nu_flag_marks_group_zero_interaction[OF e eg d1]
  note t3 = nu_flag_marks_group_zero_interaction[OF c cg d2]
  from t1 t2 t3 r e eg c cg show ?thesis by simp
qed

end
